theory Spec2Isabelle
  imports Main "HOL-Library.Word"
begin

section \<open>Bytes, slices and Python values\<close>

text \<open>
  The embedding follows \<^verbatim>\<open>src/abi_guesser/lib.py\<close>. A Python \<^verbatim>\<open>bytes\<close> object is a list
  of 8-bit words, a Python \<^verbatim>\<open>str\<close> is a \<^typ>\<open>string\<close>, \<^verbatim>\<open>Optional[T]\<close> is \<^typ>\<open>'a option\<close>.
  Byte positions, offsets and lengths are \<^typ>\<open>nat\<close>: every call site passes
  \<^verbatim>\<open>param_idx * 32\<close> or a value read from the buffer, none of which is negative.
  A raised exception is the \<open>Inl\<close> side of a sum.
\<close>

type_synonym byte = "8 word"
type_synonym bytes = "byte list"

datatype error =
    TypeError
  | AttributeError
  | ValueError
  | IndexError
  | ZeroDivisionError
  | FormatError
  | DecodingError
  | RecursionError

type_synonym 'a result = "error + 'a"

text \<open>The slice \<^verbatim>\<open>xs[a:b]\<close> for non-negative bounds: it is cut at the end of the list.\<close>

definition slice :: "nat \<Rightarrow> nat \<Rightarrow> 'a list \<Rightarrow> 'a list" where
  "slice a b xs = drop a (take b xs)"

text \<open>
  \<^verbatim>\<open>int(encode_hex(word), 16)\<close>: the hexadecimal digits of the bytes, most significant
  first, read back as a number; that is the big-endian value of the bytes.
\<close>

definition be_int :: "bytes \<Rightarrow> nat" where
  "be_int word = foldl (\<lambda>acc b. acc * 256 + unat b) 0 word"

definition is_safe_number :: "nat \<Rightarrow> bool" where
  "is_safe_number val = (val < 2 ^ 53 - 1)"

section \<open>Offset and length probes\<close>

definition try_parse_offset :: "bytes \<Rightarrow> nat \<Rightarrow> nat option" where
  "try_parse_offset data pos =
     (let word = slice pos (pos + 32) data in
      if length word = 0 then None
      else
        let big_offset = be_int word in
        if \<not> is_safe_number big_offset then None
        else
          let offset = big_offset in
          if offset \<le> pos \<or> offset \<ge> length data \<or> offset mod 32 \<noteq> 0 then None
          else Some offset)"

definition try_parse_length :: "bytes \<Rightarrow> nat \<Rightarrow> nat option" where
  "try_parse_length data offset =
     (let word = slice offset (offset + 32) data in
      if length word = 0 then None
      else
        let big_length = be_int word in
        if \<not> is_safe_number big_length then None
        else
          let len = big_length in
          if offset + 32 + len > length data then None
          else Some len)"

section \<open>String helpers\<close>

definition startswith :: "string \<Rightarrow> string \<Rightarrow> bool" where
  "startswith s p = (take (length p) s = p)"

definition endswith :: "string \<Rightarrow> string \<Rightarrow> bool" where
  "endswith s p = (length p \<le> length s \<and> drop (length s - length p) s = p)"

text \<open>\<^verbatim>\<open>s[:-2]\<close> and \<^verbatim>\<open>s[1:-1]\<close>; both give the empty string on a string that is too short.\<close>

definition strip_suffix2 :: "string \<Rightarrow> string" where
  "strip_suffix2 s = take (length s - 2) s"

definition strip_ends :: "string \<Rightarrow> string" where
  "strip_ends s = drop 1 (take (length s - 1) s)"

text \<open>\<^verbatim>\<open>s.split(c)\<close>: always at least one piece; \<^verbatim>\<open>''.split(',')\<close> is \<^verbatim>\<open>['']\<close>.\<close>

fun split_on :: "char \<Rightarrow> string \<Rightarrow> string list" where
  "split_on c [] = [[]]"
| "split_on c (x # xs) =
     (if x = c then [] # split_on c xs
      else (case split_on c xs of [] \<Rightarrow> [[x]] | w # ws \<Rightarrow> (x # w) # ws))"

text \<open>\<^verbatim>\<open>sep.join(xs)\<close>.\<close>

fun join :: "string \<Rightarrow> string list \<Rightarrow> string" where
  "join sep [] = []"
| "join sep [x] = x"
| "join sep (x # y # ys) = x @ sep @ join sep (y # ys)"

definition format_params :: "string list \<Rightarrow> string" where
  "format_params params = join '','' params"

text \<open>
  \<^verbatim>\<open>s.format()\<close> with no arguments: doubled braces are unescaped, and every other brace
  starts a replacement field or is unbalanced, which raises (\<^verbatim>\<open>IndexError\<close>,
  \<^verbatim>\<open>KeyError\<close> or \<^verbatim>\<open>ValueError\<close>, here one error). A string without braces is returned
  unchanged.
\<close>

fun str_format :: "string \<Rightarrow> string result" where
  "str_format [] = Inr []"
| "str_format (c # cs) =
     (if c = CHR ''{'' \<or> c = CHR ''}'' then
        (case cs of
           [] \<Rightarrow> Inl FormatError
         | d # ds \<Rightarrow>
             if d = c then (case str_format ds of Inl e \<Rightarrow> Inl e | Inr r \<Rightarrow> Inr (c # r))
             else Inl FormatError)
      else (case str_format cs of Inl e \<Rightarrow> Inl e | Inr r \<Rightarrow> Inr (c # r)))"

text \<open>Truthiness of an optional string and of an optional list (\<^verbatim>\<open>if not x\<close>).\<close>

definition truthy :: "'a list option \<Rightarrow> bool" where
  "truthy r = (case r of None \<Rightarrow> False | Some s \<Rightarrow> s \<noteq> [])"

section \<open>Consistency reducer\<close>

text \<open>
  \<^verbatim>\<open>generate_consistent_result\<close> can call itself on the very list it was given (a list
  of strings that start with \<^verbatim>\<open>tuple\<close> and have no comma), so it takes the remaining
  call depth as its first argument; running out of it is Python's \<^verbatim>\<open>RecursionError\<close>.
  A Python \<^verbatim>\<open>set\<close> of strings is a list without duplicates.
\<close>

text \<open>The loop over the components of a tuple: it stops at the first falsy component.\<close>

fun collect_components :: "(nat \<Rightarrow> string option result) \<Rightarrow> nat list \<Rightarrow> string list option result" where
  "collect_components f [] = Inr (Some [])"
| "collect_components f (i # is) =
     (case f i of
        Inl e \<Rightarrow> Inl e
      | Inr component \<Rightarrow>
          if \<not> truthy component then Inr None
          else (case collect_components f is of
                  Inl e \<Rightarrow> Inl e
                | Inr None \<Rightarrow> Inr None
                | Inr (Some components) \<Rightarrow> Inr (Some (the component # components))))"

definition consistency_checker :: "string list \<Rightarrow> string option" where
  "consistency_checker params =
     (let checker = remdups params;
          checker' = (if ''()[]'' \<in> set checker
                      then List.insert ''bytes'' (removeAll ''()[]'' checker)
                      else checker)
      in if length checker' \<noteq> 1 then None else Some (hd checker'))"

fun generate_consistent_result :: "nat \<Rightarrow> string list \<Rightarrow> string option result" where
  "generate_consistent_result 0 params = Inl RecursionError"
| "generate_consistent_result (Suc n) params =
     (if params = [] then Inr None
      else if startswith (hd params) ''tuple'' \<and> hd params \<noteq> ''tuple'' then
        (if \<exists>p\<in>set params. \<not> startswith p ''tuple'' then Inr None
         else if length (remdups (map (\<lambda>p. length (split_on CHR '','' p)) params)) \<noteq> 1 then Inr None
         else
           (case collect_components
                   (\<lambda>i. generate_consistent_result n (map (\<lambda>p. split_on CHR '','' p ! i) params))
                   [0..<length (split_on CHR '','' (hd params))] of
              Inl e \<Rightarrow> Inl e
            | Inr None \<Rightarrow> Inr None
            | Inr (Some components) \<Rightarrow> Inr (Some (''('' @ format_params components @ '')''))))
      else if endswith (hd params) ''[]'' then
        (if \<exists>p\<in>set params. \<not> endswith p ''[]'' then Inr None
         else
           (case generate_consistent_result n (map strip_suffix2 params) of
              Inl e \<Rightarrow> Inl e
            | Inr array_children \<Rightarrow>
                if \<not> truthy array_children then Inr None
                else (case str_format (the array_children) of
                        Inl e \<Rightarrow> Inl e
                      | Inr s \<Rightarrow> Inr (Some (s @ ''[]'')))))
      else Inr (consistency_checker params))"

section \<open>Type merger\<close>

text \<open>
  \<^verbatim>\<open>merge_types\<close> raises \<^verbatim>\<open>ValueError\<close> on a singleton holding the empty string. Its
  recursion is bounded by the call depth like the reducer's.
\<close>

fun merge_columns :: "(nat \<Rightarrow> string result) \<Rightarrow> nat list \<Rightarrow> string list result" where
  "merge_columns f [] = Inr []"
| "merge_columns f (i # is) =
     (case f i of
        Inl e \<Rightarrow> Inl e
      | Inr t \<Rightarrow> (case merge_columns f is of Inl e \<Rightarrow> Inl e | Inr ts \<Rightarrow> Inr (t # ts)))"

fun merge_types :: "nat \<Rightarrow> string list \<Rightarrow> string result" where
  "merge_types 0 types = Inl RecursionError"
| "merge_types (Suc n) types =
     (if types = [] then Inr ''()''
      else if length types = 1 then
        (if hd types = [] then Inl ValueError else Inr (hd types))
      else
        let base_type_checker = remdups (map (\<lambda>t. hd (split_on CHR ''['' t)) types);
            rest =
              (let type_checker = remdups types in
               if length type_checker = 1 then Inr (hd types)
               else if ''bytes'' \<in> set type_checker then Inr ''bytes''
               else if ''uint256'' \<in> set type_checker then Inr ''uint256''
               else Inr ''bytes32'')
        in
        if length base_type_checker = 1 then
          (let base_type = hd base_type_checker in
           if base_type = ''tuple'' then
             (let component_types =
                    map (\<lambda>t. split_on CHR '','' (strip_ends t)) (filter (\<lambda>t. t \<noteq> ''tuple'') types)
              in
              if component_types = [] then Inr ''()''
              else if length (remdups (map length component_types)) \<noteq> 1 then Inr ''()''
              else
                (case merge_columns
                        (\<lambda>i. merge_types n (map (\<lambda>t. t ! i) component_types))
                        [0..<length (hd component_types)] of
                   Inl e \<Rightarrow> Inl e
                 | Inr merged_types \<Rightarrow> Inr (''('' @ format_params merged_types @ '')'')))
           else if base_type = ''array'' then
             (let children_types = map strip_suffix2 (filter (\<lambda>t. endswith t ''[]'') types) in
              case merge_types n children_types of
                Inl e \<Rightarrow> Inl e
              | Inr m \<Rightarrow> Inr (m @ ''[]''))
           else rest)
        else rest)"

section \<open>Well-formed-tuple decoder\<close>

text \<open>
  An entry of \<^verbatim>\<open>collected_params\<close> is either a type string or a dictionary with an
  \<^verbatim>\<open>offset\<close> and, optionally, a \<^verbatim>\<open>length\<close>.
\<close>

datatype slot = Static string | Dynamic nat "nat option"

fun is_dict :: "slot \<Rightarrow> bool" where
  "is_dict (Static s) = False"
| "is_dict (Dynamic off len) = True"

fun slot_offset :: "slot \<Rightarrow> nat" where
  "slot_offset (Static s) = 0"
| "slot_offset (Dynamic off len) = off"

text \<open>
  Values returned by the ABI decoder: byte strings and tuples (arrays are tuples too);
  iterating a byte string yields integers.
\<close>

datatype val = VBytes bytes | VTuple "val list" | VInt nat

text \<open>
  \<^verbatim>\<open>eth_abi.decode\<close> is not part of the repository; it is a parameter of the model:
  \<open>None\<close> when it raises, the decoded values otherwise.
\<close>

type_synonym decoder = "string list \<Rightarrow> bytes \<Rightarrow> val list option"

definition test_params :: "decoder \<Rightarrow> bytes \<Rightarrow> string list option \<Rightarrow> bool" where
  "test_params dec data params =
     (if \<not> truthy params then False else dec (the params) data \<noteq> None)"

text \<open>
  The arguments of a recursive call, after the call depth and the decoder:
  \<^verbatim>\<open>depth, data, param_idx, collected_params, end_of_static_calldata, expected_length,
  is_dynamic_array_element\<close>.
\<close>

type_synonym frame_fun =
  "nat \<Rightarrow> bytes \<Rightarrow> nat \<Rightarrow> slot list \<Rightarrow> nat \<Rightarrow> nat option \<Rightarrow> bool option \<Rightarrow> string list option result"

text \<open>\<^verbatim>\<open>fragment = ...; if test_params(fragment): return fragment\<close>, then the rest.\<close>

definition try_branch ::
  "decoder \<Rightarrow> bytes \<Rightarrow> string list option result \<Rightarrow> string list option result \<Rightarrow> string list option result" where
  "try_branch dec data fragment otherwise =
     (case fragment of
        Inl e \<Rightarrow> Inl e
      | Inr f \<Rightarrow> if test_params dec data f then Inr f else otherwise)"

text \<open>
  The static region: the three interpretations of the current word, in order. Each is
  tried only when the ones before it have not returned.
\<close>

definition assume_static ::
  "frame_fun \<Rightarrow> decoder \<Rightarrow> nat \<Rightarrow> bytes \<Rightarrow> nat \<Rightarrow> slot list \<Rightarrow> nat \<Rightarrow> nat option \<Rightarrow> bool option
    \<Rightarrow> string list option result" where
  "assume_static rec dec depth data param_idx collected_params end_of_static expected_length is_dyn =
     (if is_dyn \<noteq> None then Inr None
      else try_branch dec data
             (rec depth data (param_idx + 1) (collected_params @ [Static ''bytes32''])
                end_of_static expected_length is_dyn)
             (Inr None))"

definition assume_no_length ::
  "frame_fun \<Rightarrow> decoder \<Rightarrow> nat \<Rightarrow> bytes \<Rightarrow> nat \<Rightarrow> slot list \<Rightarrow> nat \<Rightarrow> nat option \<Rightarrow> bool option
    \<Rightarrow> nat \<Rightarrow> string list option result" where
  "assume_no_length rec dec depth data param_idx collected_params end_of_static expected_length is_dyn
     maybe_offset =
     (if is_dyn = None \<or> is_dyn = Some False then
        try_branch dec data
          (rec (depth + 1) data (param_idx + 1) (collected_params @ [Dynamic maybe_offset None])
             (min end_of_static maybe_offset) expected_length is_dyn)
          (assume_static rec dec depth data param_idx collected_params end_of_static
             expected_length is_dyn)
      else assume_static rec dec depth data param_idx collected_params end_of_static
             expected_length is_dyn)"

definition decode_static_region ::
  "frame_fun \<Rightarrow> decoder \<Rightarrow> nat \<Rightarrow> bytes \<Rightarrow> nat \<Rightarrow> slot list \<Rightarrow> nat \<Rightarrow> nat option \<Rightarrow> bool option
    \<Rightarrow> string list option result" where
  "decode_static_region rec dec depth data param_idx collected_params end_of_static expected_length is_dyn =
     (case try_parse_offset data (param_idx * 32) of
        None \<Rightarrow>
          assume_static rec dec depth data param_idx collected_params end_of_static
            expected_length is_dyn
      | Some maybe_offset \<Rightarrow>
          (case try_parse_length data maybe_offset of
             None \<Rightarrow>
               assume_no_length rec dec depth data param_idx collected_params end_of_static
                 expected_length is_dyn maybe_offset
           | Some maybe_length \<Rightarrow>
               if is_dyn = None \<or> is_dyn = Some True then
                 try_branch dec data
                   (rec (depth + 1) data (param_idx + 1)
                      (collected_params @ [Dynamic maybe_offset (Some maybe_length)])
                      (min end_of_static maybe_offset) expected_length is_dyn)
                   (assume_no_length rec dec depth data param_idx collected_params end_of_static
                      expected_length is_dyn maybe_offset)
               else
                 assume_no_length rec dec depth data param_idx collected_params end_of_static
                   expected_length is_dyn maybe_offset))"

text \<open>
  The loop over the element windows of the static-array path: \<open>Inr None\<close> is the
  \<^verbatim>\<open>return None\<close> of the whole frame.
\<close>

definition wrap_tuple :: "string list \<Rightarrow> string" where
  "wrap_tuple params = ''('' @ join '','' params @ '')''"

fun static_parse ::
  "(bytes \<Rightarrow> string list option result) \<Rightarrow> bytes \<Rightarrow> nat \<Rightarrow> nat list \<Rightarrow> string list option result" where
  "static_parse rec dynamic_data words_per_element [] = Inr (Some [])"
| "static_parse rec dynamic_data words_per_element (elem_idx # rest) =
     (case rec (slice (elem_idx * words_per_element * 32) ((elem_idx + 1) * words_per_element * 32)
                  dynamic_data) of
        Inl e \<Rightarrow> Inl e
      | Inr params \<Rightarrow>
          if \<not> truthy params then Inr None
          else
            (case static_parse rec dynamic_data words_per_element rest of
               Inl e \<Rightarrow> Inl e
             | Inr None \<Rightarrow> Inr None
             | Inr (Some others) \<Rightarrow>
                 Inr (Some ((if length (the params) > 1 then wrap_tuple (the params)
                             else hd (the params)) # others))))"

text \<open>\<^verbatim>\<open>[res for res in all_results if generate_consistent_result(res)]\<close>.\<close>

fun filter_consistent ::
  "(string list \<Rightarrow> string option result) \<Rightarrow> string list list \<Rightarrow> string list list result" where
  "filter_consistent reduce [] = Inr []"
| "filter_consistent reduce (res # rest) =
     (case reduce res of
        Inl e \<Rightarrow> Inl e
      | Inr r \<Rightarrow>
          (case filter_consistent reduce rest of
             Inl e \<Rightarrow> Inl e
           | Inr valid \<Rightarrow> Inr (if truthy r then res # valid else valid)))"

text \<open>
  The stable sort by length and the choice of \<^verbatim>\<open>valid_results[0][0]\<close>; \<open>Inr None\<close> is
  the \<^verbatim>\<open>return None\<close> of the frame when nothing survives.
\<close>

definition pick_array_type ::
  "(string list \<Rightarrow> string option result) \<Rightarrow> string list list \<Rightarrow> string option result" where
  "pick_array_type reduce all_results =
     (case filter_consistent reduce all_results of
        Inl e \<Rightarrow> Inl e
      | Inr valid_results \<Rightarrow>
          (case sort_key length valid_results of
             [] \<Rightarrow> Inr None
           | first # others \<Rightarrow>
               (case first of
                  [] \<Rightarrow> Inl IndexError
                | t # ts \<Rightarrow> Inr (Some (t @ ''[]'')))))"

text \<open>
  The byte-string test. With no length (\<^verbatim>\<open>None\<close>) the comparison with the length of the
  data is false and the subtraction \<^verbatim>\<open>len(dynamic_data) - None\<close>, reached when that
  length is a multiple of 32, raises \<^verbatim>\<open>TypeError\<close>.
\<close>

definition looks_like_bytes :: "bytes \<Rightarrow> nat option \<Rightarrow> bool result" where
  "looks_like_bytes dynamic_data maybe_len =
     (case maybe_len of
        None \<Rightarrow> if length dynamic_data mod 32 = 0 then Inl TypeError else Inr False
      | Some len \<Rightarrow>
          Inr (len = length dynamic_data \<or>
               (length dynamic_data mod 32 = 0 \<and>
                int (length dynamic_data) - int len < 32 \<and>
                filter (\<lambda>v. v \<noteq> 0) (drop len dynamic_data) = [])))"

text \<open>
  The three array interpretations of a tail, collected in \<^verbatim>\<open>all_results\<close>; \<open>Inr None\<close>
  is the \<^verbatim>\<open>return None\<close> of the frame when a window of the static-array path yields
  nothing. Without a length the division \<^verbatim>\<open>num_words // None\<close> raises \<^verbatim>\<open>TypeError\<close>
  (and a zero length, which the caller has handled before, would raise
  \<^verbatim>\<open>ZeroDivisionError\<close>).
\<close>

definition array_candidates ::
  "frame_fun \<Rightarrow> nat \<Rightarrow> bytes \<Rightarrow> nat option \<Rightarrow> string list list option result" where
  "array_candidates rec depth dynamic_data maybe_len =
     (case rec (depth + 1) dynamic_data 0 [] (length dynamic_data) maybe_len (Some True) of
        Inl e \<Rightarrow> Inl e
      | Inr decoded_assuming_length \<Rightarrow>
     (case rec (depth + 1) dynamic_data 0 [] (length dynamic_data) maybe_len (Some False) of
        Inl e \<Rightarrow> Inl e
      | Inr decoded_assuming_no_length \<Rightarrow>
     (case maybe_len of
        None \<Rightarrow> Inl TypeError
      | Some len \<Rightarrow>
          if len = 0 then Inl ZeroDivisionError
          else
          (let num_words = length dynamic_data div 32;
               words_per_element = num_words div len
           in case static_parse
                     (\<lambda>window. rec (depth + 1) window 0 [] (words_per_element * 32) None None)
                     dynamic_data words_per_element [0..<len] of
                Inl e \<Rightarrow> Inl e
              | Inr None \<Rightarrow> Inr None
              | Inr (Some static_parse_params) \<Rightarrow>
                  Inr (Some
                    ((if truthy decoded_assuming_length then [the decoded_assuming_length] else []) @
                     (if truthy decoded_assuming_no_length then [the decoded_assuming_no_length] else []) @
                     [static_parse_params]))))))"

definition decode_array ::
  "frame_fun \<Rightarrow> (string list \<Rightarrow> string option result) \<Rightarrow> nat \<Rightarrow> bytes \<Rightarrow> nat option
    \<Rightarrow> string option result" where
  "decode_array rec reduce depth dynamic_data maybe_len =
     (case array_candidates rec depth dynamic_data maybe_len of
        Inl e \<Rightarrow> Inl e
      | Inr None \<Rightarrow> Inr None
      | Inr (Some all_results) \<Rightarrow> pick_array_type reduce all_results)"

text \<open>
  One dynamic entry of \<^verbatim>\<open>collected_params\<close>, at index \<open>i\<close>: its tail, then the tuple
  interpretation when it has no length, then the interpretations that use the length.
\<close>

definition dynamic_data_of :: "bytes \<Rightarrow> slot list \<Rightarrow> nat \<Rightarrow> nat \<Rightarrow> nat option \<Rightarrow> bytes" where
  "dynamic_data_of data collected_params i offset maybe_dynamic_element_len =
     (let next_dynamic_param = find is_dict (drop (i + 1) collected_params);
          dynamic_data_start = offset + (if maybe_dynamic_element_len \<noteq> None then 32 else 0);
          dynamic_data_end =
            (case next_dynamic_param of None \<Rightarrow> length data | Some nxt \<Rightarrow> slot_offset nxt)
      in slice dynamic_data_start dynamic_data_end data)"

definition resolve_with_length ::
  "frame_fun \<Rightarrow> (string list \<Rightarrow> string option result) \<Rightarrow> nat \<Rightarrow> bytes \<Rightarrow> nat option
    \<Rightarrow> string option result" where
  "resolve_with_length rec reduce depth dynamic_data maybe_dynamic_element_len =
     (if maybe_dynamic_element_len = Some 0 then Inr (Some ''()[]'')
      else
        (case looks_like_bytes dynamic_data maybe_dynamic_element_len of
           Inl e \<Rightarrow> Inl e
         | Inr True \<Rightarrow> Inr (Some ''bytes'')
         | Inr False \<Rightarrow> decode_array rec reduce depth dynamic_data maybe_dynamic_element_len))"

definition resolve_dynamic ::
  "frame_fun \<Rightarrow> (string list \<Rightarrow> string option result) \<Rightarrow> nat \<Rightarrow> bytes \<Rightarrow> slot list \<Rightarrow> nat
    \<Rightarrow> nat \<Rightarrow> nat option \<Rightarrow> string option result" where
  "resolve_dynamic rec reduce depth data collected_params i offset maybe_dynamic_element_len =
     (let dynamic_data = dynamic_data_of data collected_params i offset maybe_dynamic_element_len
      in if maybe_dynamic_element_len = None then
           (case rec (depth + 1) dynamic_data 0 [] (length dynamic_data) None None of
              Inl e \<Rightarrow> Inl e
            | Inr params \<Rightarrow>
                if truthy params then Inr (Some (wrap_tuple (the params)))
                else resolve_with_length rec reduce depth dynamic_data maybe_dynamic_element_len)
         else resolve_with_length rec reduce depth dynamic_data maybe_dynamic_element_len)"

text \<open>The loop over \<^verbatim>\<open>collected_params\<close> that fills \<^verbatim>\<open>final_params\<close>.\<close>

fun resolve_params ::
  "(nat \<Rightarrow> string option result) \<Rightarrow> nat list \<Rightarrow> string list \<Rightarrow> string list option result" where
  "resolve_params resolve [] final_params = Inr (Some final_params)"
| "resolve_params resolve (i # rest) final_params =
     (case resolve i of
        Inl e \<Rightarrow> Inl e
      | Inr None \<Rightarrow> Inr None
      | Inr (Some t) \<Rightarrow> resolve_params resolve rest (final_params @ [t]))"

definition resolve_slot ::
  "frame_fun \<Rightarrow> (string list \<Rightarrow> string option result) \<Rightarrow> nat \<Rightarrow> bytes \<Rightarrow> slot list \<Rightarrow> nat
    \<Rightarrow> string option result" where
  "resolve_slot rec reduce depth data collected_params i =
     (case collected_params ! i of
        Static param \<Rightarrow> Inr (Some param)
      | Dynamic offset len \<Rightarrow> resolve_dynamic rec reduce depth data collected_params i offset len)"

definition resolve_dynamic_region ::
  "frame_fun \<Rightarrow> (string list \<Rightarrow> string option result) \<Rightarrow> decoder \<Rightarrow> nat \<Rightarrow> bytes \<Rightarrow> slot list
    \<Rightarrow> nat option \<Rightarrow> string list option result" where
  "resolve_dynamic_region rec reduce dec depth data collected_params expected_length =
     (if expected_length \<noteq> None \<and> length collected_params \<noteq> the expected_length then Inr None
      else
        (case resolve_params (resolve_slot rec reduce depth data collected_params)
                [0..<length collected_params] [] of
           Inl e \<Rightarrow> Inl e
         | Inr None \<Rightarrow> Inr None
         | Inr (Some final_params) \<Rightarrow>
             if \<not> test_params dec data (Some final_params) then Inr None
             else Inr (Some final_params)))"

text \<open>
  \<^verbatim>\<open>decode_well_formed_tuple\<close>. The first argument is the remaining call depth, shared
  with the reducer it calls.
\<close>

fun decode_well_formed_tuple ::
  "nat \<Rightarrow> decoder \<Rightarrow> nat \<Rightarrow> bytes \<Rightarrow> nat \<Rightarrow> slot list \<Rightarrow> nat \<Rightarrow> nat option \<Rightarrow> bool option
    \<Rightarrow> string list option result" where
  "decode_well_formed_tuple 0 dec depth data param_idx collected_params end_of_static
     expected_length is_dyn = Inl RecursionError"
| "decode_well_formed_tuple (Suc n) dec depth data param_idx collected_params end_of_static
     expected_length is_dyn =
     (if param_idx * 32 < end_of_static then
        decode_static_region (decode_well_formed_tuple n dec) dec depth data param_idx
          collected_params end_of_static expected_length is_dyn
      else
        resolve_dynamic_region (decode_well_formed_tuple n dec) (generate_consistent_result n) dec
          depth data collected_params expected_length)"

section \<open>Type refiner\<close>

text \<open>\<^verbatim>\<open>str(n)\<close> for an integer.\<close>

fun show_nat :: "nat \<Rightarrow> string" where
  "show_nat n =
     (if n < 10 then [''0123456789'' ! n]
      else show_nat (n div 10) @ [''0123456789'' ! (n mod 10)])"

definition show_int :: "int \<Rightarrow> string" where
  "show_int i = (if i < 0 then ''-'' @ show_nat (nat (- i)) else show_nat (nat i))"

text \<open>
  Python's strict UTF-8 decoder accepts exactly the well-formed byte sequences of the
  Unicode standard (no overlong forms, no surrogates, nothing above U+10FFFF).
\<close>

definition cont_byte :: "byte \<Rightarrow> bool" where
  "cont_byte b = (0x80 \<le> b \<and> b \<le> 0xBF)"

fun valid_utf8 :: "bytes \<Rightarrow> bool" where
  "valid_utf8 [] = True"
| "valid_utf8 (b0 # rest) =
     (if b0 \<le> 0x7F then valid_utf8 rest
      else if 0xC2 \<le> b0 \<and> b0 \<le> 0xDF then
        (case rest of b1 # r \<Rightarrow> cont_byte b1 \<and> valid_utf8 r | _ \<Rightarrow> False)
      else if 0xE0 \<le> b0 \<and> b0 \<le> 0xEF then
        (case rest of
           b1 # b2 # r \<Rightarrow>
             (if b0 = 0xE0 then 0xA0 \<le> b1 \<and> b1 \<le> 0xBF
              else if b0 = 0xED then 0x80 \<le> b1 \<and> b1 \<le> 0x9F
              else cont_byte b1) \<and> cont_byte b2 \<and> valid_utf8 r
         | _ \<Rightarrow> False)
      else if 0xF0 \<le> b0 \<and> b0 \<le> 0xF4 then
        (case rest of
           b1 # b2 # b3 # r \<Rightarrow>
             (if b0 = 0xF0 then 0x90 \<le> b1 \<and> b1 \<le> 0xBF
              else if b0 = 0xF4 then 0x80 \<le> b1 \<and> b1 \<le> 0x8F
              else cont_byte b1) \<and> cont_byte b2 \<and> cont_byte b3 \<and> valid_utf8 r
         | _ \<Rightarrow> False)
      else False)"

text \<open>
  \<^verbatim>\<open>len(arr) - len(arr.lstrip(b'\x00'))\<close> and its mirror image: a tuple has a length
  but no \<^verbatim>\<open>lstrip\<close>, an integer has no length.
\<close>

definition count_leading_zeros :: "val \<Rightarrow> nat result" where
  "count_leading_zeros arr =
     (case arr of
        VBytes bs \<Rightarrow> Inr (length bs - length (dropWhile (\<lambda>b. b = 0) bs))
      | VTuple vs \<Rightarrow> Inl AttributeError
      | VInt i \<Rightarrow> Inl TypeError)"

definition count_trailing_zeros :: "val \<Rightarrow> nat result" where
  "count_trailing_zeros arr =
     (case arr of
        VBytes bs \<Rightarrow> Inr (length bs - length (dropWhile (\<lambda>b. b = 0) (rev bs)))
      | VTuple vs \<Rightarrow> Inl AttributeError
      | VInt i \<Rightarrow> Inl TypeError)"

text \<open>Iterating a value (the second argument of \<^verbatim>\<open>zip\<close>) and \<^verbatim>\<open>len(val)\<close>.\<close>

definition iterate :: "val \<Rightarrow> val list result" where
  "iterate v =
     (case v of
        VTuple vs \<Rightarrow> Inr vs
      | VBytes bs \<Rightarrow> Inr (map (\<lambda>b. VInt (unat b)) bs)
      | VInt i \<Rightarrow> Inl TypeError)"

definition py_len :: "val \<Rightarrow> nat result" where
  "py_len v =
     (case v of
        VTuple vs \<Rightarrow> Inr (length vs)
      | VBytes bs \<Rightarrow> Inr (length bs)
      | VInt i \<Rightarrow> Inl TypeError)"

definition infer_bytes32 :: "val \<Rightarrow> string result" where
  "infer_bytes32 v =
     (case count_leading_zeros v of
        Inl e \<Rightarrow> Inl e
      | Inr leading_zeros \<Rightarrow>
     (case count_trailing_zeros v of
        Inl e \<Rightarrow> Inl e
      | Inr trailing_zeros \<Rightarrow>
          if 12 \<le> leading_zeros \<and> leading_zeros \<le> 17 then Inr ''address''
          else if leading_zeros > 16 then Inr ''uint256''
          else if trailing_zeros > 0 then Inr (''bytes'' @ show_int (32 - int trailing_zeros))
          else Inr ''bytes32''))"

definition infer_bytes :: "val \<Rightarrow> string result" where
  "infer_bytes v =
     (case v of
        VBytes bs \<Rightarrow> Inr (if valid_utf8 bs then ''string'' else ''bytes'')
      | VTuple vs \<Rightarrow> Inl AttributeError
      | VInt i \<Rightarrow> Inl AttributeError)"

text \<open>The loop over \<^verbatim>\<open>zip(params, vals)\<close>.\<close>

fun infer_each :: "(string \<Rightarrow> val \<Rightarrow> string result) \<Rightarrow> (string \<times> val) list \<Rightarrow> string list result" where
  "infer_each infer [] = Inr []"
| "infer_each infer ((param, v) # rest) =
     (case infer param v of
        Inl e \<Rightarrow> Inl e
      | Inr t \<Rightarrow> (case infer_each infer rest of Inl e \<Rightarrow> Inl e | Inr ts \<Rightarrow> Inr (t # ts)))"

text \<open>The body of the loop, for one parameter and its value.\<close>

definition infer_one ::
  "(string list \<Rightarrow> val \<Rightarrow> string list result) \<Rightarrow> (string list \<Rightarrow> string result) \<Rightarrow> string \<Rightarrow> val
    \<Rightarrow> string result" where
  "infer_one rec merge param v =
     (if startswith param ''('' \<and> endswith param '')'' then
        (let component_types = split_on CHR '','' (strip_ends param) in
         case rec component_types v of
           Inl e \<Rightarrow> Inl e
         | Inr inferred_types \<Rightarrow> Inr (wrap_tuple inferred_types))
      else if endswith param ''[]'' \<or> (startswith param ''['' \<and> endswith param '']'') then
        (let child_type = (if endswith param ''[]'' then strip_suffix2 param else strip_ends param) in
         case py_len v of
           Inl e \<Rightarrow> Inl e
         | Inr k \<Rightarrow>
             (case rec (replicate k child_type) v of
                Inl e \<Rightarrow> Inl e
              | Inr inferred_child_types \<Rightarrow>
                  (case merge inferred_child_types of
                     Inl e \<Rightarrow> Inl e
                   | Inr merged_child_type \<Rightarrow> Inr (merged_child_type @ ''[]''))))
      else if param = ''bytes32'' then infer_bytes32 v
      else if param = ''bytes'' then infer_bytes v
      else Inr param)"

fun infer_types :: "nat \<Rightarrow> string list \<Rightarrow> val \<Rightarrow> string list result" where
  "infer_types 0 params vals = Inl RecursionError"
| "infer_types (Suc n) params vals =
     (case iterate vals of
        Inl e \<Rightarrow> Inl e
      | Inr vs \<Rightarrow> infer_each (infer_one (infer_types n) (merge_types n)) (zip params vs))"

section \<open>Top-level guesser\<close>

text \<open>
  \<^verbatim>\<open>guess_abi_encoded_data\<close> on a byte string (\<^verbatim>\<open>decode_hex\<close> returns bytes unchanged).
  The second call of the ABI decoder is not guarded; if it raised, the exception would
  propagate.
\<close>

definition guess_abi_encoded_data :: "nat \<Rightarrow> decoder \<Rightarrow> bytes \<Rightarrow> string list option result" where
  "guess_abi_encoded_data n dec data =
     (case decode_well_formed_tuple n dec 0 data 0 [] (length data) None None of
        Inl e \<Rightarrow> Inl e
      | Inr None \<Rightarrow> Inr None
      | Inr (Some params) \<Rightarrow>
          (case dec params data of
             None \<Rightarrow> Inl DecodingError
           | Some vals \<Rightarrow>
               (case infer_types n params (VTuple vals) of
                  Inl e \<Rightarrow> Inl e
                | Inr types \<Rightarrow> Inr (Some types))))"

section \<open>The call graph of the static region\<close>

text \<open>
  A frame of \<^verbatim>\<open>decode_well_formed_tuple\<close> on a buffer is given by \<^verbatim>\<open>param_idx\<close>,
  \<^verbatim>\<open>collected_params\<close>, \<^verbatim>\<open>end_of_static_calldata\<close> and \<^verbatim>\<open>is_dynamic_array_element\<close>.
  \<open>frame_call data f f'\<close>: in the static region, frame \<open>f\<close> may call frame \<open>f'\<close> on the
  same buffer. Calls on the tail of a dynamic entry start again from
  \<open>(0, [], length tail, _)\<close> on the tail.
\<close>

type_synonym frame = "nat \<times> slot list \<times> nat \<times> bool option"

inductive frame_call :: "bytes \<Rightarrow> frame \<Rightarrow> frame \<Rightarrow> bool" for data :: bytes where
  call_with_length:
    "param_idx * 32 < end_of_static \<Longrightarrow>
     try_parse_offset data (param_idx * 32) = Some off \<Longrightarrow>
     try_parse_length data off = Some len \<Longrightarrow>
     is_dyn = None \<or> is_dyn = Some True \<Longrightarrow>
     frame_call data (param_idx, collected, end_of_static, is_dyn)
       (param_idx + 1, collected @ [Dynamic off (Some len)], min end_of_static off, is_dyn)"
| call_without_length:
    "param_idx * 32 < end_of_static \<Longrightarrow>
     try_parse_offset data (param_idx * 32) = Some off \<Longrightarrow>
     is_dyn = None \<or> is_dyn = Some False \<Longrightarrow>
     frame_call data (param_idx, collected, end_of_static, is_dyn)
       (param_idx + 1, collected @ [Dynamic off None], min end_of_static off, is_dyn)"
| call_static:
    "param_idx * 32 < end_of_static \<Longrightarrow>
     is_dyn = None \<Longrightarrow>
     frame_call data (param_idx, collected, end_of_static, is_dyn)
       (param_idx + 1, collected @ [Static ''bytes32''], end_of_static, is_dyn)"

text \<open>The offsets of the dynamic entries of \<^verbatim>\<open>collected_params\<close>, in order.\<close>

definition dynamic_offsets :: "slot list \<Rightarrow> nat list" where
  "dynamic_offsets collected = map slot_offset (filter is_dict collected)"

text \<open>
  What holds of the entries of every frame: entry \<open>i\<close> was read from the word at byte
  \<open>32 * i\<close>, and a dynamic entry holds an offset that passed \<^verbatim>\<open>try_parse_offset\<close> there
  and that \<^verbatim>\<open>end_of_static_calldata\<close> has been lowered to.
\<close>

definition slots_ok :: "bytes \<Rightarrow> frame \<Rightarrow> bool" where
  "slots_ok data f =
     (case f of (param_idx, collected, end_of_static, is_dyn) \<Rightarrow>
        length collected = param_idx \<and>
        end_of_static \<le> length data \<and>
        (\<forall>i < length collected.
           case collected ! i of
             Static s \<Rightarrow> True
           | Dynamic off len \<Rightarrow>
               32 * i < off \<and> off < length data \<and> off mod 32 = 0 \<and> end_of_static \<le> off))"

section \<open>Candidate types\<close>

text \<open>
  The grammar of the type strings the decoder produces:
  \<^verbatim>\<open>T ::= "bytes32" | "bytes" | "()[]" | "(" T ("," T)* ")" | T "[]"\<close>.
\<close>

inductive candidate_type :: "string \<Rightarrow> bool" where
  cand_bytes32: "candidate_type ''bytes32''"
| cand_bytes: "candidate_type ''bytes''"
| cand_sentinel: "candidate_type ''()[]''"
| cand_tuple: "ts \<noteq> [] \<Longrightarrow> \<forall>t\<in>set ts. candidate_type t \<Longrightarrow> candidate_type (wrap_tuple ts)"
| cand_array: "candidate_type t \<Longrightarrow> candidate_type (t @ ''[]'')"

text \<open>
  A weaker property, enough for the reducer: the string has no brace (\<^verbatim>\<open>format\<close> leaves
  it alone) and starts with \<^verbatim>\<open>b\<close> or with a parenthesis, as every candidate type does.
\<close>

definition no_brace :: "string \<Rightarrow> bool" where
  "no_brace s = (CHR ''{'' \<notin> set s \<and> CHR ''}'' \<notin> set s)"

definition plain :: "string \<Rightarrow> bool" where
  "plain t = (t \<noteq> [] \<and> (hd t = CHR ''b'' \<or> hd t = CHR ''('') \<and> no_brace t)"

section \<open>A model of the ABI decoder on candidate types\<close>

text \<open>
  For closed examples the decoder parameter is instantiated with \<open>abi_decode\<close>, the
  standard head/tail decoding of the contract ABI for the candidate types: \<^verbatim>\<open>bytes32\<close>
  is one word, \<^verbatim>\<open>bytes\<close> is a length word and the bytes padded with zeros to a whole
  number of words, an array is a length word and its elements, a tuple or array with a
  dynamic member is reached through an offset relative to the enclosing tuple. A read
  beyond the buffer fails; surplus bytes are ignored. Every other type string is
  rejected: that is what \<^verbatim>\<open>eth_abi\<close> does on a malformed string, and the examples below
  submit no well-formed type outside the candidate grammar.
\<close>

datatype abi_type = TBytes32 | TBytes | TTuple "abi_type list" | TArray abi_type

text \<open>Splitting at the commas outside parentheses; \<open>None\<close> on unbalanced parentheses.\<close>

fun split_top :: "nat \<Rightarrow> string \<Rightarrow> string list option" where
  "split_top d [] = (if d = 0 then Some [[]] else None)"
| "split_top d (c # cs) =
     (if c = CHR '','' \<and> d = 0 then map_option (\<lambda>ws. [] # ws) (split_top 0 cs)
      else if c = CHR '')'' \<and> d = 0 then None
      else
        (case split_top (if c = CHR ''('' then d + 1 else if c = CHR '')'' then d - 1 else d) cs of
           None \<Rightarrow> None
         | Some [] \<Rightarrow> None
         | Some (w # ws) \<Rightarrow> Some ((c # w) # ws)))"

text \<open>The parser; its first argument bounds the nesting and is the length of the string.\<close>

fun parse_type :: "nat \<Rightarrow> string \<Rightarrow> abi_type option" where
  "parse_type 0 s = None"
| "parse_type (Suc n) s =
     (if endswith s ''[]'' then map_option TArray (parse_type n (strip_suffix2 s))
      else if s = ''bytes32'' then Some TBytes32
      else if s = ''bytes'' then Some TBytes
      else if startswith s ''('' \<and> endswith s '')'' then
        (if strip_ends s = [] then Some (TTuple [])
         else
           (case split_top 0 (strip_ends s) of
              None \<Rightarrow> None
            | Some pieces \<Rightarrow>
                (let ts = map (parse_type n) pieces in
                 if None \<in> set ts then None else Some (TTuple (map the ts)))))
      else None)"

fun is_dynamic :: "abi_type \<Rightarrow> bool" where
  "is_dynamic TBytes32 = False"
| "is_dynamic TBytes = True"
| "is_dynamic (TArray t) = True"
| "is_dynamic (TTuple ts) = list_ex is_dynamic ts"

text \<open>The size of a type in the head of its tuple.\<close>

fun head_size :: "abi_type \<Rightarrow> nat" where
  "head_size TBytes32 = 32"
| "head_size TBytes = 32"
| "head_size (TArray t) = 32"
| "head_size (TTuple ts) = (if list_ex is_dynamic ts then 32 else sum_list (map head_size ts))"

definition read_word :: "bytes \<Rightarrow> nat \<Rightarrow> bytes option" where
  "read_word data p = (if p + 32 \<le> length data then Some (slice p (p + 32) data) else None)"

definition read_uint :: "bytes \<Rightarrow> nat \<Rightarrow> nat option" where
  "read_uint data p = map_option be_int (read_word data p)"

definition read_bytes :: "bytes \<Rightarrow> nat \<Rightarrow> val option" where
  "read_bytes data p =
     (case read_uint data p of
        None \<Rightarrow> None
      | Some len \<Rightarrow>
          (let padded = ((len + 31) div 32) * 32;
               body = slice (p + 32) (p + 32 + padded) data
           in if length body < padded then None
              else if drop len body \<noteq> replicate (padded - len) 0 then None
              else Some (VBytes (take len body))))"

text \<open>
  \<open>decode_at t data p\<close> decodes a value of type \<open>t\<close> whose encoding starts at byte \<open>p\<close>;
  \<open>decode_seq\<close> and \<open>decode_items\<close> walk the head of a tuple and of an array whose
  offsets are relative to \<open>base\<close>.
\<close>

fun decode_at :: "abi_type \<Rightarrow> bytes \<Rightarrow> nat \<Rightarrow> val option"
  and decode_seq :: "abi_type list \<Rightarrow> bytes \<Rightarrow> nat \<Rightarrow> nat \<Rightarrow> val list option"
  and decode_items :: "abi_type \<Rightarrow> nat \<Rightarrow> bytes \<Rightarrow> nat \<Rightarrow> nat \<Rightarrow> val list option" where
  "decode_at TBytes32 data p = map_option VBytes (read_word data p)"
| "decode_at TBytes data p = read_bytes data p"
| "decode_at (TArray t) data p =
     (case read_uint data p of
        None \<Rightarrow> None
      | Some k \<Rightarrow> map_option VTuple (decode_items t k data (p + 32) (p + 32)))"
| "decode_at (TTuple ts) data p = map_option VTuple (decode_seq ts data p p)"
| "decode_seq [] data base p = Some []"
| "decode_seq (t # ts) data base p =
     (case (if is_dynamic t
            then (case read_uint data p of None \<Rightarrow> None | Some off \<Rightarrow> decode_at t data (base + off))
            else decode_at t data p) of
        None \<Rightarrow> None
      | Some v \<Rightarrow>
          (case decode_seq ts data base (p + head_size t) of
             None \<Rightarrow> None
           | Some vs \<Rightarrow> Some (v # vs)))"
| "decode_items t 0 data base p = Some []"
| "decode_items t (Suc k) data base p =
     (case (if is_dynamic t
            then (case read_uint data p of None \<Rightarrow> None | Some off \<Rightarrow> decode_at t data (base + off))
            else decode_at t data p) of
        None \<Rightarrow> None
      | Some v \<Rightarrow>
          (case decode_items t k data base (p + head_size t) of
             None \<Rightarrow> None
           | Some vs \<Rightarrow> Some (v # vs)))"

definition abi_decode :: decoder where
  "abi_decode types data =
     (let ts = map (\<lambda>s. parse_type (Suc (length s)) s) types in
      if None \<in> set ts then None else decode_seq (map the ts) data 0 0)"

text \<open>
  Words for the examples: a word whose only non-zero byte is the last one (a small
  unsigned integer) and a word whose only non-zero byte is the first one.
\<close>

definition low_word :: "byte \<Rightarrow> bytes" where
  "low_word b = replicate 31 0 @ [b]"

definition high_word :: "byte \<Rightarrow> bytes" where
  "high_word b = b # replicate 31 0"

text \<open>
  The calldata of one argument of type \<^verbatim>\<open>(uint256,(uint256,bytes))\<close>: the offset of the
  outer tuple, a large integer, the offset of the inner tuple, a large integer, the
  offset of the byte string, its length 1 and the byte \<^verbatim>\<open>0xff\<close> padded to a word.
\<close>

definition nested_tuple_calldata :: bytes where
  "nested_tuple_calldata =
     low_word 32 @ high_word 1 @ low_word 64 @ high_word 1 @ low_word 64 @ low_word 1 @ high_word 255"

text \<open>
  Tails of arrays for the examples: the elements of a \<^verbatim>\<open>string[]\<close> holding the two
  one-character strings \<^verbatim>\<open>h\<close> and \<^verbatim>\<open>w\<close>, and two empty dynamic values whose tails are
  laid out in reverse order.
\<close>

definition two_chars_calldata :: bytes where
  "two_chars_calldata =
     low_word 64 @ low_word 128 @ low_word 1 @ high_word 104 @ low_word 1 @ high_word 119"

definition reversed_tails_calldata :: bytes where
  "reversed_tails_calldata = low_word 96 @ low_word 64 @ low_word 0 @ low_word 0"

text \<open>An offset and a length of 5 followed by a single word.\<close>

definition short_array_calldata :: bytes where
  "short_array_calldata = low_word 32 @ low_word 5 @ low_word 1"



text \<open>A frame function returns plain strings when the static entries it is given are plain.\<close>

definition plain_results :: "frame_fun \<Rightarrow> bool" where
  "plain_results rec =
     (\<forall>d data i c e x y tys.
        rec d data i c e x y = Inr (Some tys) \<longrightarrow> (\<forall>s. Static s \<in> set c \<longrightarrow> plain s) \<longrightarrow>
        (\<forall>t\<in>set tys. plain t))"

section \<open>Facts for evaluating the probes on whole words\<close>

lemma length_slice: "length (slice a b xs) = min b (length xs) - a"
  by (simp add: slice_def)

lemma length_low_word [simp]: "length (low_word b) = 32"
  by (simp add: low_word_def)

lemma length_high_word [simp]: "length (high_word b) = 32"
  by (simp add: high_word_def)

lemma low_word_not_Nil [simp]: "low_word b \<noteq> []"
  by (simp add: low_word_def)

lemma high_word_not_Nil [simp]: "high_word b \<noteq> []"
  by (simp add: high_word_def)

lemma be_int_append: "be_int (xs @ ys) = be_int xs * 256 ^ length ys + be_int ys"
proof (induction ys rule: rev_induct)
  case Nil
  show ?case by (simp add: be_int_def)
next
  case (snoc y ys)
  have "be_int (xs @ ys @ [y]) = be_int (xs @ ys) * 256 + unat y"
    by (simp add: be_int_def)
  also have "\<dots> = (be_int xs * 256 ^ length ys + be_int ys) * 256 + unat y"
    by (simp add: snoc.IH)
  also have "\<dots> = be_int xs * 256 ^ length (ys @ [y]) + be_int (ys @ [y])"
    by (simp add: be_int_def algebra_simps)
  finally show ?case by simp
qed

lemma be_int_zeros: "be_int (replicate k 0) = 0"
proof (induction k)
  case 0
  show ?case by (simp add: be_int_def)
next
  case (Suc k)
  have "replicate (Suc k) (0::byte) = replicate k 0 @ [0]"
    by (simp add: replicate_append_same)
  then show ?case
    using Suc by (simp add: be_int_append be_int_def del: replicate_Suc)
qed

lemma be_int_single: "be_int [b] = unat b"
  by (simp add: be_int_def)

lemma be_int_low_word [simp]: "be_int (low_word b) = unat b"
  by (simp add: low_word_def be_int_append be_int_zeros be_int_single)

lemma be_int_high_word [simp]: "be_int (high_word b) = unat b * 256 ^ 31"
proof -
  have "be_int ([b] @ replicate 31 0) =
        be_int [b] * 256 ^ length (replicate 31 (0::byte)) + be_int (replicate 31 0)"
    by (rule be_int_append)
  then show ?thesis
    by (simp add: high_word_def be_int_zeros be_int_single)
qed

lemma try_branch_cong:
  "fragment = fragment' \<Longrightarrow>
   try_branch dec data fragment otherwise = try_branch dec data fragment' otherwise"
  by simp

lemmas frame_defs =
  decode_static_region_def assume_no_length_def assume_static_def resolve_dynamic_region_def
  try_branch_def test_params_def truthy_def try_parse_offset_def try_parse_length_def slice_def
  is_safe_number_def resolve_slot_def resolve_dynamic_def resolve_with_length_def
  dynamic_data_of_def looks_like_bytes_def Let_def

section \<open>Facts for evaluating frames, the decoder model and the refiner\<close>

lemma parse_type_numeral:
  "parse_type (numeral k) s =
     (if endswith s ''[]'' then map_option TArray (parse_type (pred_numeral k) (strip_suffix2 s))
      else if s = ''bytes32'' then Some TBytes32
      else if s = ''bytes'' then Some TBytes
      else if startswith s ''('' \<and> endswith s '')'' then
        (if strip_ends s = [] then Some (TTuple [])
         else
           (case split_top 0 (strip_ends s) of
              None \<Rightarrow> None
            | Some pieces \<Rightarrow>
                (let ts = map (parse_type (pred_numeral k)) pieces in
                 if None \<in> set ts then None else Some (TTuple (map the ts)))))
      else None)"
  by (subst numeral_eq_Suc) (rule parse_type.simps(2))

lemma decode_items_numeral:
  "decode_items t (numeral k) data base p =
     (case (if is_dynamic t
            then (case read_uint data p of None \<Rightarrow> None | Some off \<Rightarrow> decode_at t data (base + off))
            else decode_at t data p) of
        None \<Rightarrow> None
      | Some v \<Rightarrow>
          (case decode_items t (pred_numeral k) data base (p + head_size t) of
             None \<Rightarrow> None
           | Some vs \<Rightarrow> Some (v # vs)))"
  by (subst numeral_eq_Suc) (rule decode_items.simps(2))

lemma decode_frame_numeral:
  "decode_well_formed_tuple (numeral k) dec depth data param_idx collected_params end_of_static
     expected_length is_dyn =
     (if param_idx * 32 < end_of_static then
        decode_static_region (decode_well_formed_tuple (pred_numeral k) dec) dec depth data param_idx
          collected_params end_of_static expected_length is_dyn
      else
        resolve_dynamic_region (decode_well_formed_tuple (pred_numeral k) dec)
          (generate_consistent_result (pred_numeral k)) dec
          depth data collected_params expected_length)"
  by (subst numeral_eq_Suc) (rule decode_well_formed_tuple.simps(2))

lemma reducer_numeral:
  "generate_consistent_result (numeral k) params =
     (if params = [] then Inr None
      else if startswith (hd params) ''tuple'' \<and> hd params \<noteq> ''tuple'' then
        (if \<exists>p\<in>set params. \<not> startswith p ''tuple'' then Inr None
         else if length (remdups (map (\<lambda>p. length (split_on CHR '','' p)) params)) \<noteq> 1 then Inr None
         else
           (case collect_components
                   (\<lambda>i. generate_consistent_result (pred_numeral k) (map (\<lambda>p. split_on CHR '','' p ! i) params))
                   [0..<length (split_on CHR '','' (hd params))] of
              Inl e \<Rightarrow> Inl e
            | Inr None \<Rightarrow> Inr None
            | Inr (Some components) \<Rightarrow> Inr (Some (''('' @ format_params components @ '')''))))
      else if endswith (hd params) ''[]'' then
        (if \<exists>p\<in>set params. \<not> endswith p ''[]'' then Inr None
         else
           (case generate_consistent_result (pred_numeral k) (map strip_suffix2 params) of
              Inl e \<Rightarrow> Inl e
            | Inr array_children \<Rightarrow>
                if \<not> truthy array_children then Inr None
                else (case str_format (the array_children) of
                        Inl e \<Rightarrow> Inl e
                      | Inr s \<Rightarrow> Inr (Some (s @ ''[]'')))))
      else Inr (consistency_checker params))"
  by (subst numeral_eq_Suc) (rule generate_consistent_result.simps(2))

lemma infer_types_numeral:
  "infer_types (numeral k) params vals =
     (case iterate vals of
        Inl e \<Rightarrow> Inl e
      | Inr vs \<Rightarrow>
          infer_each (infer_one (infer_types (pred_numeral k)) (merge_types (pred_numeral k)))
            (zip params vs))"
  by (subst numeral_eq_Suc) (rule infer_types.simps(2))

lemma merge_types_numeral:
  "merge_types (numeral k) types =
     (if types = [] then Inr ''()''
      else if length types = 1 then
        (if hd types = [] then Inl ValueError else Inr (hd types))
      else
        let base_type_checker = remdups (map (\<lambda>t. hd (split_on CHR ''['' t)) types);
            rest =
              (let type_checker = remdups types in
               if length type_checker = 1 then Inr (hd types)
               else if ''bytes'' \<in> set type_checker then Inr ''bytes''
               else if ''uint256'' \<in> set type_checker then Inr ''uint256''
               else Inr ''bytes32'')
        in
        if length base_type_checker = 1 then
          (let base_type = hd base_type_checker in
           if base_type = ''tuple'' then
             (let component_types =
                    map (\<lambda>t. split_on CHR '','' (strip_ends t)) (filter (\<lambda>t. t \<noteq> ''tuple'') types)
              in
              if component_types = [] then Inr ''()''
              else if length (remdups (map length component_types)) \<noteq> 1 then Inr ''()''
              else
                (case merge_columns
                        (\<lambda>i. merge_types (pred_numeral k) (map (\<lambda>t. t ! i) component_types))
                        [0..<length (hd component_types)] of
                   Inl e \<Rightarrow> Inl e
                 | Inr merged_types \<Rightarrow> Inr (''('' @ format_params merged_types @ '')'')))
           else if base_type = ''array'' then
             (let children_types = map strip_suffix2 (filter (\<lambda>t. endswith t ''[]'') types) in
              case merge_types (pred_numeral k) children_types of
                Inl e \<Rightarrow> Inl e
              | Inr m \<Rightarrow> Inr (m @ ''[]''))
           else rest)
        else rest)"
  by (subst numeral_eq_Suc) (rule merge_types.simps(2))

lemmas fuel_numerals =
  decode_frame_numeral infer_types_numeral reducer_numeral merge_types_numeral

lemmas abi_defs =
  abi_decode_def parse_type_numeral decode_items_numeral read_word_def read_uint_def
  read_bytes_def startswith_def endswith_def strip_suffix2_def strip_ends_def

lemma drop_one_high_word [simp]: "drop (Suc 0) (high_word b) = replicate 31 0"
  by (simp add: high_word_def)

lemma take_one_high_word [simp]: "take (Suc 0) (high_word b) = [b]"
  by (simp add: high_word_def)

lemma filter_nonzero_zeros [simp]: "filter (\<lambda>v. v \<noteq> 0) (replicate k (0::byte)) = []"
  by (induction k) simp_all

lemma dropWhile_zeros:
  "dropWhile (\<lambda>b. b = 0) (replicate k (0::byte) @ xs) = dropWhile (\<lambda>b. b = 0) xs"
  by (induction k) simp_all

lemma dropWhile_all_zeros: "dropWhile (\<lambda>b. b = 0) (replicate k (0::byte)) = []"
  using dropWhile_zeros [of k "[]"] by simp

lemma leading_zeros_low_word:
  "count_leading_zeros (VBytes (low_word b)) = Inr (if b = 0 then 32 else 31)"
  unfolding count_leading_zeros_def low_word_def
  by (simp add: dropWhile_zeros del: replicate_Suc)

lemma trailing_zeros_low_word:
  "count_trailing_zeros (VBytes (low_word b)) = Inr (if b = 0 then 32 else 0)"
  unfolding count_trailing_zeros_def low_word_def
  by (simp add: dropWhile_all_zeros del: replicate_Suc)

lemma leading_zeros_high_word:
  "count_leading_zeros (VBytes (high_word b)) = Inr (if b = 0 then 32 else 0)"
  unfolding count_leading_zeros_def high_word_def
  by (simp add: dropWhile_all_zeros del: replicate_Suc)

lemma trailing_zeros_high_word:
  "count_trailing_zeros (VBytes (high_word b)) = Inr (if b = 0 then 32 else 31)"
proof -
  have "rev (high_word b) = replicate 31 0 @ [b]"
    by (simp add: high_word_def del: replicate_Suc)
  then show ?thesis
    unfolding count_trailing_zeros_def
    by (simp add: dropWhile_zeros del: replicate_Suc)
qed

lemmas refine_defs =
  infer_one_def infer_bytes32_def infer_bytes_def iterate_def py_len_def wrap_tuple_def
  leading_zeros_low_word trailing_zeros_low_word leading_zeros_high_word trailing_zeros_high_word
  show_int_def

lemma one_word_frame:
  "decode_well_formed_tuple 2 abi_decode 0 (low_word 123) 0 [] 32 None None = Inr (Some [''bytes32''])"
  by (simp add: fuel_numerals frame_defs abi_defs cong: try_branch_cong)

lemma one_word_guess:
  "guess_abi_encoded_data 2 abi_decode (low_word 123) = Inr (Some [''uint256''])"
  by (simp add: guess_abi_encoded_data_def fuel_numerals frame_defs abi_defs refine_defs cong: try_branch_cong)

section \<open>The offset probe\<close>

text \<open>
  Claim C5, as amended. For a position that is a multiple of 32 (every call site passes
  \<^verbatim>\<open>param_idx * 32\<close>), \<^verbatim>\<open>try_parse_offset(data, pos)\<close> returns \<open>Some v\<close> exactly when the
  buffer holds a full 32-byte word at \<open>pos\<close> whose big-endian value \<open>v\<close> satisfies
  \<open>v < 2^53 - 1\<close>, \<open>v > pos\<close>, \<open>v < len(data)\<close> and \<open>v % 32 = 0\<close>, and \<open>None\<close> in every other
  case, a buffer too short for a full word included.
\<close>

theorem try_parse_offset_aligned:
  assumes "pos mod 32 = 0"
  shows "try_parse_offset data pos =
     (let v = be_int (slice pos (pos + 32) data) in
      if pos + 32 \<le> length data \<and> v < 2 ^ 53 - 1 \<and> v > pos \<and> v < length data \<and> v mod 32 = 0
      then Some v else None)"
proof (cases "pos + 32 \<le> length data")
  case True
  then have "length (slice pos (pos + 32) data) = 32"
    by (simp add: length_slice)
  then show ?thesis
    using True by (auto simp: try_parse_offset_def Let_def is_safe_number_def)
next
  case False
  have "\<not> (pos < v \<and> v < length data \<and> 32 dvd v)" for v
    using False assms by presburger
  then show ?thesis
    using False by (auto simp: try_parse_offset_def Let_def)
qed

theorem try_parse_offset_aligned_witness:
  "(32::nat) mod 32 = 0 \<and>
   try_parse_offset (low_word 64 @ low_word 64 @ low_word 5) 32 = Some 64"
  using try_parse_offset_aligned [of 32 "low_word 64 @ low_word 64 @ low_word 5"]
  by (simp add: slice_def)

text \<open>
  The claim as stated fails at a position that is not a multiple of 32: the code rejects
  an empty slice only, so the nine bytes left at position 31 of a 40-byte buffer are read
  as the offset 32 although no full word starts there.
\<close>

theorem try_parse_offset_short_word:
  "try_parse_offset (replicate 39 0 @ [32]) 31 = Some 32 \<and>
   \<not> 31 + 32 \<le> length (replicate 39 (0::byte) @ [32])"
proof -
  have "slice 31 (31 + 32) (replicate 39 (0::byte) @ [32]) = replicate 8 0 @ [32]"
    by (simp add: slice_def)
  then show ?thesis
    by (simp add: try_parse_offset_def is_safe_number_def be_int_append be_int_zeros
        be_int_single)
qed

section \<open>Exceptions\<close>

text \<open>
  Claim C2 (the code raises). On the 96 bytes that encode the three integers 64, 64
  and 5, the first two words are taken as offsets without length, the tail of the first
  one is empty, its decoding as a tuple yields nothing, and the code goes on to subtract
  the missing length from the length of the tail: \<^verbatim>\<open>TypeError\<close>, whatever the ABI decoder
  answers and for every call depth of at least four.
\<close>

theorem repeated_offset_raises:
  "decode_well_formed_tuple (n + 4) dec 0 (low_word 64 @ low_word 64 @ low_word 5) 0 [] 96 None None
     = Inl TypeError \<and>
   guess_abi_encoded_data (n + 4) dec (low_word 64 @ low_word 64 @ low_word 5) = Inl TypeError"
proof -
  have fuel: "n + 4 = Suc (Suc (Suc (Suc n)))"
    by simp
  show ?thesis
    unfolding fuel guess_abi_encoded_data_def
    by (simp add: frame_defs cong: try_branch_cong)
qed

section \<open>The type merger on arrays\<close>

text \<open>
  Claim C6 (the code differs). The array clause of \<^verbatim>\<open>merge_types\<close> is guarded by a base
  type equal to the literal \<^verbatim>\<open>array\<close>, which no type string ending in \<^verbatim>\<open>[]\<close> has; two
  different array types fall through to the last clauses. Merging \<^verbatim>\<open>uint256[]\<close> and
  \<^verbatim>\<open>bytes32[]\<close> gives \<^verbatim>\<open>bytes32\<close>, while the merge of the children is \<^verbatim>\<open>uint256\<close>.
\<close>

theorem merge_types_array_fallback:
  "merge_types (Suc n) [''uint256[]'', ''bytes32[]''] = Inr ''bytes32'' \<and>
   merge_types (Suc n) [''uint256'', ''bytes32''] = Inr ''uint256''"
  by (simp add: Let_def)

section \<open>The consistency reducer\<close>

lemma str_format_no_brace: "no_brace s \<Longrightarrow> str_format s = Inr s"
  by (induction s) (auto simp: no_brace_def)

lemma startswith_take: "startswith (take k s) p \<Longrightarrow> startswith s p"
  unfolding startswith_def
  by (metis append_eq_conv_conj append_take_drop_id take_take)

lemma endswith_strip: "endswith s ''[]'' \<Longrightarrow> strip_suffix2 s @ ''[]'' = s"
  unfolding endswith_def strip_suffix2_def
  by (metis append_take_drop_id length_Cons list.size(3) numeral_2_eq_2)

lemma remdups_single: "length (remdups xs) = 1 \<Longrightarrow> x \<in> set xs \<Longrightarrow> remdups xs = [x]"
proof -
  assume a: "length (remdups xs) = 1" and b: "x \<in> set xs"
  then obtain y where y: "remdups xs = [y]"
    by (cases "remdups xs") auto
  then have "set xs = {y}"
    by (metis list.set(1) list.simps(15) set_remdups)
  with b y show ?thesis by simp
qed

lemma consistency_checker_hd:
  assumes "consistency_checker ps = Some r" "ps \<noteq> []" "hd ps \<noteq> ''()[]''"
  shows "r = hd ps"
proof -
  have hd_in: "hd ps \<in> set ps"
    using assms(2) by simp
  show ?thesis
  proof (cases "''()[]'' \<in> set ps")
    case False
    then have "length (remdups ps) = 1" "r = hd (remdups ps)"
      using assms(1) by (auto simp: consistency_checker_def Let_def split: if_splits)
    then show ?thesis
      using remdups_single [OF _ hd_in] by simp
  next
    case True
    let ?rest = "removeAll ''()[]'' (remdups ps)"
    have len: "length (List.insert ''bytes'' ?rest) = 1" and r: "r = hd (List.insert ''bytes'' ?rest)"
      using assms(1) True by (auto simp: consistency_checker_def Let_def split: if_splits)
    have mem: "hd ps \<in> set ?rest"
      using hd_in assms(3) by simp
    then have "?rest \<noteq> []"
      by (metis empty_iff empty_set)
    then have ins: "List.insert ''bytes'' ?rest = ?rest"
      using len by (cases ?rest) (auto simp: List.insert_def split: if_splits)
    then obtain y where y: "?rest = [y]"
      using len by (cases ?rest) auto
    with mem have "y = hd ps" by simp
    with r ins y show ?thesis by simp
  qed
qed

lemma reducer_returns_head:
  "generate_consistent_result n ps = Inr (Some r) \<Longrightarrow> \<not> startswith (hd ps) ''tuple'' \<Longrightarrow>
   no_brace (hd ps) \<Longrightarrow> r = hd ps"
proof (induction n arbitrary: ps r)
  case 0
  then show ?case by simp
next
  case (Suc n)
  have ne: "ps \<noteq> []"
    using Suc.prems(1) by (auto split: if_splits)
  show ?case
  proof (cases "endswith (hd ps) ''[]''")
    case True
    let ?qs = "map strip_suffix2 ps"
    from Suc.prems(1) Suc.prems(2) ne True
    obtain r' s where r': "generate_consistent_result n ?qs = Inr (Some r')"
      and s: "str_format r' = Inr s" and r: "r = s @ ''[]''"
      by (auto simp: truthy_def split: if_splits sum.splits option.splits)
    have hd_qs: "hd ?qs = strip_suffix2 (hd ps)"
      using ne by (simp add: hd_map)
    have "\<not> startswith (hd ?qs) ''tuple''"
      using Suc.prems(2) startswith_take unfolding hd_qs strip_suffix2_def by blast
    moreover have nb: "no_brace (hd ?qs)"
      using Suc.prems(3) unfolding hd_qs strip_suffix2_def no_brace_def
      by (meson in_set_takeD)
    ultimately have "r' = hd ?qs"
      using Suc.IH [OF r'] by simp
    then have "s = strip_suffix2 (hd ps)"
      using s nb str_format_no_brace hd_qs by simp
    then show ?thesis
      using r endswith_strip [OF True] by simp
  next
    case False
    then have "consistency_checker ps = Some r"
      using Suc.prems(1) Suc.prems(2) ne by (auto split: if_splits)
    moreover have "hd ps \<noteq> ''()[]''"
      using False by (auto simp: endswith_def)
    ultimately show ?thesis
      using consistency_checker_hd ne by blast
  qed
qed

lemma set_join: "set (join sep xs) \<subseteq> set sep \<union> (\<Union>x\<in>set xs. set x)"
  by (induction sep xs rule: join.induct) auto

lemma candidate_plain: "candidate_type t \<Longrightarrow> plain t"
proof (induction rule: candidate_type.induct)
  case (cand_tuple ts)
  have "set (join '','' ts) \<subseteq> set '','' \<union> (\<Union>x\<in>set ts. set x)"
    by (rule set_join)
  moreover have "\<forall>x\<in>set ts. no_brace x"
    using cand_tuple by (simp add: plain_def)
  ultimately have "no_brace (join '','' ts)"
    unfolding no_brace_def by auto
  then show ?case
    by (auto simp: plain_def wrap_tuple_def no_brace_def)
next
  case (cand_array t)
  then show ?case
    by (auto simp: plain_def no_brace_def)
qed (simp_all add: plain_def no_brace_def)

lemma plain_not_tuple: "plain t \<Longrightarrow> \<not> startswith t ''tuple''"
  by (cases t) (auto simp: plain_def startswith_def)

lemma plain_strip_nonempty:
  assumes "plain t" "endswith t ''[]''"
  shows "strip_suffix2 t \<noteq> []"
proof
  assume "strip_suffix2 t = []"
  with endswith_strip [OF assms(2)] have "t = ''[]''"
    by simp
  with assms(1) show False
    by (simp add: plain_def)
qed

text \<open>
  Claim C8. For a non-empty list whose first element is a candidate type ending in
  \<^verbatim>\<open>[]\<close>, the reducer fails if some sibling does not end in \<^verbatim>\<open>[]\<close>; otherwise its result
  is the result of the reducer on the list with one \<^verbatim>\<open>[]\<close> stripped from each element,
  with \<^verbatim>\<open>[]\<close> appended, and a failure or an exception of that reduction is passed on. The
  call on the stripped list is one level deeper. Nothing is asked of the siblings.
\<close>

theorem reducer_array_rule:
  assumes "params \<noteq> []" and "candidate_type (hd params)" and "endswith (hd params) ''[]''"
  shows "generate_consistent_result (Suc n) params =
     (if \<exists>p\<in>set params. \<not> endswith p ''[]'' then Inr None
      else case generate_consistent_result n (map strip_suffix2 params) of
             Inl e \<Rightarrow> Inl e
           | Inr None \<Rightarrow> Inr None
           | Inr (Some t) \<Rightarrow> Inr (Some (t @ ''[]'')))"
proof -
  let ?qs = "map strip_suffix2 params"
  have pl: "plain (hd params)"
    using assms(2) by (rule candidate_plain)
  have nt: "\<not> startswith (hd params) ''tuple''"
    using pl by (rule plain_not_tuple)
  have hd_qs: "hd ?qs = strip_suffix2 (hd params)"
    using assms(1) by (simp add: hd_map)
  have nt': "\<not> startswith (hd ?qs) ''tuple''"
    using nt startswith_take unfolding hd_qs strip_suffix2_def by blast
  have nb': "no_brace (hd ?qs)"
    using pl unfolding hd_qs strip_suffix2_def plain_def no_brace_def
    by (meson in_set_takeD)
  have ok: "t \<noteq> [] \<and> str_format t = Inr t"
    if "generate_consistent_result n ?qs = Inr (Some t)" for t
  proof -
    have "t = hd ?qs"
      using reducer_returns_head [OF that nt' nb'] .
    then show ?thesis
      using plain_strip_nonempty [OF pl assms(3)] nb' str_format_no_brace hd_qs by simp
  qed
  show ?thesis
  proof (cases "generate_consistent_result n ?qs")
    case (Inl e)
    then show ?thesis
      using assms(1) assms(3) nt by simp
  next
    case (Inr r)
    show ?thesis
    proof (cases r)
      case None
      then show ?thesis
        using Inr assms(1) assms(3) nt by (simp add: truthy_def)
    next
      case (Some t)
      then show ?thesis
        using Inr assms(1) assms(3) nt ok [of t] by (simp add: truthy_def)
    qed
  qed
qed

theorem reducer_array_rule_witness:
  "[''bytes32[]'', ''bytes32[]''] \<noteq> [] \<and> candidate_type ''bytes32[]'' \<and>
   endswith ''bytes32[]'' ''[]'' \<and>
   generate_consistent_result (Suc (Suc 0)) [''bytes32[]'', ''bytes32[]''] = Inr (Some ''bytes32[]'')"
proof -
  have c: "candidate_type ''bytes32[]''"
    using cand_array [OF cand_bytes32] by simp
  have e: "endswith ''bytes32[]'' ''[]''"
    by (simp add: endswith_def)
  have "generate_consistent_result (Suc 0) [''bytes32'', ''bytes32''] = Inr (Some ''bytes32'')"
    by (simp add: startswith_def endswith_def consistency_checker_def)
  then show ?thesis
    using c e reducer_array_rule [of "[''bytes32[]'', ''bytes32[]'']" "Suc 0"]
    by (simp add: strip_suffix2_def endswith_def)
qed

text \<open>
  Claim C7 (the code differs). The tuple rule of \<^verbatim>\<open>generate_consistent_result\<close> is
  guarded by \<^verbatim>\<open>startswith('tuple')\<close>; a tuple of the produced grammar starts with a
  parenthesis, so the rule never applies to it and the two siblings \<^verbatim>\<open>(bytes)\<close> and
  \<^verbatim>\<open>(()[])\<close> are compared as plain strings: the reducer fails.
\<close>

theorem reducer_tuple_rule_not_taken:
  "generate_consistent_result (Suc n) [''(bytes)'', ''(()[])''] = Inr None"
  by (simp add: startswith_def endswith_def consistency_checker_def)

section \<open>The oracle gate\<close>

lemma static_region_accepted:
  "decode_static_region rec dec depth data idx coll eos exp dyn = Inr (Some types) \<Longrightarrow>
   test_params dec data (Some types)"
  unfolding decode_static_region_def assume_no_length_def assume_static_def try_branch_def
  by (auto split: option.splits sum.splits if_splits)

lemma dynamic_region_accepted:
  "resolve_dynamic_region rec reduce dec depth data coll exp = Inr (Some types) \<Longrightarrow>
   test_params dec data (Some types)"
  unfolding resolve_dynamic_region_def
  by (auto split: option.splits sum.splits if_splits)

lemma frame_result_accepted:
  "decode_well_formed_tuple n dec depth data idx coll eos exp dyn = Inr (Some types) \<Longrightarrow>
   test_params dec data (Some types)"
  by (cases n) (auto split: if_splits dest: static_region_accepted dynamic_region_accepted)

lemma test_params_Some: "test_params dec data (Some types) = (types \<noteq> [] \<and> dec types data \<noteq> None)"
  by (simp add: test_params_def truthy_def)

lemma infer_each_length: "infer_each f xs = Inr ts \<Longrightarrow> length ts = length xs"
  by (induction f xs arbitrary: ts rule: infer_each.induct) (auto split: sum.splits)

lemma infer_types_length:
  "infer_types n params (VTuple vals) = Inr ts \<Longrightarrow> length ts = min (length params) (length vals)"
  by (cases n) (auto simp: iterate_def dest: infer_each_length)

lemma nested_tuple_frame:
  "decode_well_formed_tuple 12 abi_decode 0 nested_tuple_calldata 0 [] 224 None None =
     Inr (Some [''(bytes32,(bytes32,bytes))''])"
  unfolding nested_tuple_calldata_def
  by (simp add: fuel_numerals frame_defs abi_defs wrap_tuple_def cong: try_branch_cong)

lemma decode_seq_length: "decode_seq ts data base p = Some vs \<Longrightarrow> length vs = length ts"
  by (induction ts arbitrary: p vs) (auto split: option.splits if_splits)

lemma abi_decode_length: "abi_decode types d = Some vals \<Longrightarrow> length vals = length types"
  by (auto simp: abi_decode_def Let_def split: if_splits dest: decode_seq_length)

text \<open>
  What \<^verbatim>\<open>test_params\<close> guarantees: every list that \<^verbatim>\<open>decode_well_formed_tuple\<close> returns is
  not empty and is accepted by the ABI decoder on the data of that frame; and when
  \<^verbatim>\<open>guess_abi_encoded_data\<close> returns a list, the list it handed to the refiner was
  accepted on the input bytes and produced the values the refiner worked from.
\<close>

lemma decoded_list_accepted:
  "(decode_well_formed_tuple n dec depth data idx coll eos exp dyn = Inr (Some types) \<longrightarrow>
      types \<noteq> [] \<and> dec types data \<noteq> None) \<and>
   (guess_abi_encoded_data n dec data = Inr (Some refined) \<longrightarrow>
      (\<exists>params vals.
         decode_well_formed_tuple n dec 0 data 0 [] (length data) None None = Inr (Some params) \<and>
         params \<noteq> [] \<and> dec params data = Some vals \<and>
         infer_types n params (VTuple vals) = Inr refined))"
proof -
  have frame: "types \<noteq> [] \<and> dec types data \<noteq> None"
    if "decode_well_formed_tuple n dec depth data idx coll eos exp dyn = Inr (Some types)"
    using that frame_result_accepted test_params_Some by blast
  have top: "\<exists>params vals.
         decode_well_formed_tuple n dec 0 data 0 [] (length data) None None = Inr (Some params) \<and>
         params \<noteq> [] \<and> dec params data = Some vals \<and>
         infer_types n params (VTuple vals) = Inr refined"
    if g: "guess_abi_encoded_data n dec data = Inr (Some refined)"
  proof -
    from g obtain params where
      p: "decode_well_formed_tuple n dec 0 data 0 [] (length data) None None = Inr (Some params)"
      by (auto simp: guess_abi_encoded_data_def split: sum.splits option.splits)
    then have "params \<noteq> []"
      using frame_result_accepted test_params_Some by blast
    with g p show ?thesis
      by (auto simp: guess_abi_encoded_data_def split: sum.splits option.splits)
  qed
  from frame top show ?thesis
    by blast
qed

lemma decoded_list_accepted_example:
  "decode_well_formed_tuple 2 abi_decode 0 (low_word 123) 0 [] 32 None None = Inr (Some [''bytes32'']) \<and>
   guess_abi_encoded_data 2 abi_decode (low_word 123) = Inr (Some [''uint256'']) \<and>
   [''bytes32''] \<noteq> [] \<and> abi_decode [''bytes32''] (low_word 123) \<noteq> None"
  using decoded_list_accepted [of 2 abi_decode 0 "low_word 123" 0 "[]" 32 None None
      "[''bytes32'']" "[''uint256'']"] one_word_frame one_word_guess
  by simp

text \<open>
  Claim C1 (the code differs). The list that \<^verbatim>\<open>guess_abi_encoded_data\<close> returns is the
  refined one, and nothing submits it to the ABI decoder. On the calldata of a tuple
  nested in a tuple the decoder returns \<^verbatim>\<open>(bytes32,(bytes32,bytes))\<close>, which the ABI
  decoder accepts; the refiner splits the inside of the outer tuple at every comma, pairs
  the first two pieces with the two values and returns \<^verbatim>\<open>(bytes1,(bytes32)\<close>, a string
  with two opening parentheses and one closing parenthesis, which the ABI decoder
  rejects on the input bytes.
\<close>

theorem refined_list_rejected:
  "decode_well_formed_tuple 12 abi_decode 0 nested_tuple_calldata 0 [] 224 None None =
     Inr (Some [''(bytes32,(bytes32,bytes))'']) \<and>
   guess_abi_encoded_data 12 abi_decode nested_tuple_calldata = Inr (Some [''(bytes1,(bytes32)'']) \<and>
   abi_decode [''(bytes1,(bytes32)''] nested_tuple_calldata = None \<and>
   length (filter (\<lambda>c. c = CHR ''('') ''(bytes1,(bytes32)'') = 2 \<and>
   length (filter (\<lambda>c. c = CHR '')'') ''(bytes1,(bytes32)'') = 1"
proof -
  have "guess_abi_encoded_data 12 abi_decode nested_tuple_calldata = Inr (Some [''(bytes1,(bytes32)''])"
    unfolding nested_tuple_calldata_def
    by (simp add: guess_abi_encoded_data_def fuel_numerals frame_defs abi_defs refine_defs
        cong: try_branch_cong)
  moreover have "abi_decode [''(bytes1,(bytes32)''] nested_tuple_calldata = None"
    unfolding nested_tuple_calldata_def
    by (simp add: abi_defs)
  ultimately show ?thesis
    using nested_tuple_frame by simp
qed

text \<open>
  Claim C10. Provided the ABI decoder returns one value for each type it is given, every
  list returned by \<^verbatim>\<open>guess_abi_encoded_data\<close> is not empty: \<^verbatim>\<open>test_params\<close> rejects the
  empty list without consulting the decoder, and the refiner returns one type for each
  decoded type. On the empty input the result is none (at any call depth that allows
  the one call it takes).
\<close>

theorem empty_list_never_returned:
  assumes "\<forall>types d vals. dec types d = Some vals \<longrightarrow> length vals = length types"
  shows "\<not> test_params dec data (Some []) \<and>
         guess_abi_encoded_data (Suc n) dec [] = Inr None \<and>
         (guess_abi_encoded_data m dec data = Inr (Some types) \<longrightarrow> types \<noteq> [])"
proof -
  have a: "\<not> test_params dec data (Some [])"
    by (simp add: test_params_Some)
  have b: "guess_abi_encoded_data (Suc n) dec [] = Inr None"
    by (simp add: guess_abi_encoded_data_def resolve_dynamic_region_def test_params_Some)
  have c: "types \<noteq> []" if g: "guess_abi_encoded_data m dec data = Inr (Some types)"
  proof -
    from g obtain params vals where
      p: "decode_well_formed_tuple m dec 0 data 0 [] (length data) None None = Inr (Some params)"
      and v: "dec params data = Some vals" and i: "infer_types m params (VTuple vals) = Inr types"
      by (auto simp: guess_abi_encoded_data_def split: sum.splits option.splits)
    have "params \<noteq> []"
      using p frame_result_accepted test_params_Some by blast
    moreover have "length vals = length params"
      using assms v by blast
    ultimately show ?thesis
      using infer_types_length [OF i] by auto
  qed
  from a b c show ?thesis
    by blast
qed

theorem empty_list_never_returned_witness:
  "abi_decode [] [] = Some [] \<and>
   test_params abi_decode (low_word 123) (Some []) = False \<and>
   guess_abi_encoded_data (Suc 0) abi_decode [] = Inr None \<and>
   guess_abi_encoded_data 2 abi_decode (low_word 123) = Inr (Some [''uint256'']) \<and>
   [''uint256''] \<noteq> ([] :: string list)"
proof -
  have contract: "\<forall>types d vals. abi_decode types d = Some vals \<longrightarrow> length vals = length types"
    using abi_decode_length by blast
  have none: "abi_decode [] [] = Some []"
    by (simp add: abi_decode_def)
  show ?thesis
    using empty_list_never_returned [OF contract, of "low_word 123" 0 2 "[''uint256'']"]
      one_word_guess none
    by simp
qed

section \<open>The types the decoder produces\<close>

lemma plain_resultsD:
  "plain_results rec \<Longrightarrow> rec d data i c e x y = Inr (Some tys) \<Longrightarrow>
   (\<And>s. Static s \<in> set c \<Longrightarrow> plain s) \<Longrightarrow> t \<in> set tys \<Longrightarrow> plain t"
  unfolding plain_results_def by blast

lemma plain_results_Nil:
  "plain_results rec \<Longrightarrow> rec d data i [] e x y = Inr (Some tys) \<Longrightarrow> \<forall>t\<in>set tys. plain t"
  unfolding plain_results_def by fastforce

lemma plain_bytes32: "plain ''bytes32''"
  by (simp add: plain_def no_brace_def)

lemma plain_wrap_tuple: "\<forall>t\<in>set ts. plain t \<Longrightarrow> plain (wrap_tuple ts)"
proof -
  assume a: "\<forall>t\<in>set ts. plain t"
  have "set (join '','' ts) \<subseteq> set '','' \<union> (\<Union>x\<in>set ts. set x)"
    by (rule set_join)
  moreover have "\<forall>x\<in>set ts. no_brace x"
    using a by (simp add: plain_def)
  ultimately have "no_brace (join '','' ts)"
    unfolding no_brace_def by auto
  then show ?thesis
    by (auto simp: plain_def wrap_tuple_def no_brace_def)
qed

lemma plain_array: "plain t \<Longrightarrow> plain (t @ ''[]'')"
  by (auto simp: plain_def no_brace_def)

lemma static_region_plain:
  assumes "plain_results rec"
    and "decode_static_region rec dec depth data idx coll eos exp dyn = Inr (Some tys)"
    and "\<And>s. Static s \<in> set coll \<Longrightarrow> plain s"
  shows "\<forall>t\<in>set tys. plain t"
proof -
  from assms(2) obtain d i slot e where
    r: "rec d data i (coll @ [slot]) e exp dyn = Inr (Some tys)"
    and slot: "slot = Static ''bytes32'' \<or> (\<exists>off len. slot = Dynamic off len)"
    unfolding decode_static_region_def assume_no_length_def assume_static_def try_branch_def
    by (auto split: option.splits sum.splits if_splits)
  have "\<And>s. Static s \<in> set (coll @ [slot]) \<Longrightarrow> plain s"
    using assms(3) slot plain_bytes32 by auto
  then show ?thesis
    using plain_resultsD [OF assms(1) r] by blast
qed

lemma static_parse_plain:
  assumes "plain_results rec"
  shows "static_parse (\<lambda>w. rec d w 0 [] e None None) dd wpe idxs = Inr (Some ps) \<Longrightarrow>
         \<forall>t\<in>set ps. plain t"
proof (induction idxs arbitrary: ps)
  case Nil
  then show ?case by simp
next
  case (Cons i idxs)
  let ?w = "slice (i * wpe * 32) ((i + 1) * wpe * 32) dd"
  from Cons.prems obtain params others where
    r: "rec d ?w 0 [] e None None = Inr (Some params)" and ne: "params \<noteq> []"
    and o: "static_parse (\<lambda>w. rec d w 0 [] e None None) dd wpe idxs = Inr (Some others)"
    and ps: "ps = (if length params > 1 then wrap_tuple params else hd params) # others"
    by (auto simp: truthy_def split: sum.splits option.splits if_splits)
  have pl: "\<forall>t\<in>set params. plain t"
    using plain_results_Nil [OF assms r] .
  then have "plain (if length params > 1 then wrap_tuple params else hd params)"
    using ne plain_wrap_tuple by auto
  then show ?case
    using Cons.IH [OF o] ps by simp
qed

lemma array_candidates_plain:
  assumes "plain_results rec"
    and "array_candidates rec depth dd maybe_len = Inr (Some all_results)"
  shows "\<forall>r\<in>set all_results. \<forall>t\<in>set r. plain t"
proof -
  from assms(2) obtain a b len sp where
    a: "rec (depth + 1) dd 0 [] (length dd) maybe_len (Some True) = Inr a"
    and b: "rec (depth + 1) dd 0 [] (length dd) maybe_len (Some False) = Inr b"
    and sp: "static_parse (\<lambda>w. rec (depth + 1) w 0 [] (length dd div 32 div len * 32) None None)
               dd (length dd div 32 div len) [0..<len] = Inr (Some sp)"
    and all: "all_results = (if truthy a then [the a] else []) @ (if truthy b then [the b] else []) @ [sp]"
    unfolding array_candidates_def Let_def
    by (auto split: sum.splits option.splits if_splits)
  have "\<forall>t\<in>set (the a). plain t" if "truthy a"
    using that a plain_results_Nil [OF assms(1)] by (cases a) (auto simp: truthy_def)
  moreover have "\<forall>t\<in>set (the b). plain t" if "truthy b"
    using that b plain_results_Nil [OF assms(1)] by (cases b) (auto simp: truthy_def)
  moreover have "\<forall>t\<in>set sp. plain t"
    using static_parse_plain [OF assms(1) sp] .
  ultimately show ?thesis
    using all by auto
qed

lemma filter_consistent_eq:
  "filter_consistent reduce xs = Inr valid \<Longrightarrow>
   valid = filter (\<lambda>r. \<exists>T. reduce r = Inr (Some T) \<and> T \<noteq> []) xs"
proof (induction xs arbitrary: valid)
  case Nil
  then show ?case by simp
next
  case (Cons x xs)
  then show ?case
    by (auto simp: truthy_def split: sum.splits option.splits if_splits)
qed

lemma pick_array_type_plain:
  assumes "pick_array_type reduce all_results = Inr (Some ty)"
    and "\<forall>r\<in>set all_results. \<forall>t\<in>set r. plain t"
  shows "plain ty"
proof -
  from assms(1) obtain valid first others t ts where
    v: "filter_consistent reduce all_results = Inr valid"
    and s: "sort_key length valid = first # others" and f: "first = t # ts" and ty: "ty = t @ ''[]''"
    unfolding pick_array_type_def
    by (auto split: sum.splits list.splits)
  have "first \<in> set valid"
    using s by (metis list.set_intros(1) set_sort)
  then have "first \<in> set all_results"
    using filter_consistent_eq [OF v] by simp
  then have "plain t"
    using assms(2) f by auto
  then show ?thesis
    using ty plain_array by simp
qed

lemma resolve_dynamic_plain:
  assumes "plain_results rec"
    and "resolve_dynamic rec reduce depth data coll i off len = Inr (Some ty)"
  shows "plain ty"
proof -
  let ?dd = "dynamic_data_of data coll i off len"
  have arr: "plain ty" if "decode_array rec reduce depth ?dd len = Inr (Some ty)"
  proof -
    from that obtain all_results where
      c: "array_candidates rec depth ?dd len = Inr (Some all_results)"
      and p: "pick_array_type reduce all_results = Inr (Some ty)"
      unfolding decode_array_def by (auto split: sum.splits option.splits)
    show ?thesis
      using pick_array_type_plain [OF p array_candidates_plain [OF assms(1) c]] .
  qed
  have wl: "plain ty" if w: "resolve_with_length rec reduce depth ?dd len = Inr (Some ty)"
  proof (cases "len = Some 0")
    case True
    then have "ty = ''()[]''"
      using w by (simp add: resolve_with_length_def)
    then show ?thesis
      by (simp add: plain_def no_brace_def)
  next
    case False
    show ?thesis
    proof (cases "looks_like_bytes ?dd len")
      case (Inl e)
      then show ?thesis
        using w False by (simp add: resolve_with_length_def)
    next
      case (Inr b)
      show ?thesis
      proof (cases b)
        case True
        then have "ty = ''bytes''"
          using w False Inr by (simp add: resolve_with_length_def)
        then show ?thesis
          by (simp add: plain_def no_brace_def)
      next
        case b: False
        then have "decode_array rec reduce depth ?dd len = Inr (Some ty)"
          using w False Inr by (simp add: resolve_with_length_def)
        then show ?thesis
          by (rule arr)
      qed
    qed
  qed
  show ?thesis
  proof (cases "resolve_with_length rec reduce depth ?dd len = Inr (Some ty)")
    case True
    then show ?thesis by (rule wl)
  next
    case False
    have ln: "len = None"
      using assms(2) False unfolding resolve_dynamic_def Let_def by (auto split: if_splits)
    obtain res where res: "rec (depth + 1) ?dd 0 [] (length ?dd) None None = Inr res"
      using assms(2) ln unfolding resolve_dynamic_def Let_def by (auto split: sum.splits)
    have tr: "truthy res"
      using assms(2) ln res False unfolding resolve_dynamic_def Let_def by (auto split: if_splits)
    then obtain params where params: "res = Some params"
      by (cases res) (auto simp: truthy_def)
    have r: "rec (depth + 1) ?dd 0 [] (length ?dd) None None = Inr (Some params)"
      using res params by simp
    have ty: "ty = wrap_tuple params"
      using assms(2) ln res tr params unfolding resolve_dynamic_def Let_def by simp
    show ?thesis
      using plain_results_Nil [OF assms(1) r] ty plain_wrap_tuple by simp
  qed
qed

lemma resolve_params_plain:
  assumes "\<And>i t. i \<in> set idxs \<Longrightarrow> f i = Inr (Some t) \<Longrightarrow> plain t"
  shows "resolve_params f idxs acc = Inr (Some final) \<Longrightarrow> \<forall>t\<in>set acc. plain t \<Longrightarrow>
         \<forall>t\<in>set final. plain t"
  using assms
proof (induction idxs arbitrary: acc)
  case Nil
  then show ?case by simp
next
  case (Cons i idxs)
  from Cons.prems(1) obtain t where
    t: "f i = Inr (Some t)" and r: "resolve_params f idxs (acc @ [t]) = Inr (Some final)"
    by (auto split: sum.splits option.splits)
  have "plain t"
    using Cons.prems(3) [OF _ t] by simp
  then have acc: "\<forall>t\<in>set (acc @ [t]). plain t"
    using Cons.prems(2) by simp
  have rest: "plain u" if "j \<in> set idxs" "f j = Inr (Some u)" for j u
    using that Cons.prems(3) [of j u] by simp
  show ?case
    using Cons.IH [OF r acc rest] .
qed

lemma dynamic_region_plain:
  assumes "plain_results rec"
    and "resolve_dynamic_region rec reduce dec depth data coll exp = Inr (Some tys)"
    and "\<And>s. Static s \<in> set coll \<Longrightarrow> plain s"
  shows "\<forall>t\<in>set tys. plain t"
proof -
  from assms(2) have
    r: "resolve_params (resolve_slot rec reduce depth data coll) [0..<length coll] [] = Inr (Some tys)"
    unfolding resolve_dynamic_region_def
    by (auto split: if_splits sum.splits option.splits)
  have "plain t" if "i \<in> set [0..<length coll]" "resolve_slot rec reduce depth data coll i = Inr (Some t)"
    for i t
  proof (cases "coll ! i")
    case (Static s)
    then have "Static s \<in> set coll"
      using that(1) by (metis atLeastLessThan_iff nth_mem set_upt)
    then show ?thesis
      using that(2) Static assms(3) by (simp add: resolve_slot_def)
  next
    case (Dynamic off len)
    then show ?thesis
      using that(2) resolve_dynamic_plain [OF assms(1)] by (simp add: resolve_slot_def)
  qed
  then show ?thesis
    using resolve_params_plain [OF _ r] by simp
qed

lemma decode_plain: "plain_results (decode_well_formed_tuple n dec)"
proof (induction n)
  case 0
  show ?case by (simp add: plain_results_def)
next
  case (Suc n)
  show ?case
    unfolding plain_results_def
  proof (intro allI impI)
    fix d data i c e x y tys
    assume r: "decode_well_formed_tuple (Suc n) dec d data i c e x y = Inr (Some tys)"
      and c: "\<forall>s. Static s \<in> set c \<longrightarrow> plain s"
    show "\<forall>t\<in>set tys. plain t"
    proof (cases "i * 32 < e")
      case True
      then have "decode_static_region (decode_well_formed_tuple n dec) dec d data i c e x y = Inr (Some tys)"
        using r by simp
      then show ?thesis
        using static_region_plain [OF Suc] c by blast
    next
      case False
      then have "resolve_dynamic_region (decode_well_formed_tuple n dec) (generate_consistent_result n)
                   dec d data c x = Inr (Some tys)"
        using r by simp
      then show ?thesis
        using dynamic_region_plain [OF Suc] c by blast
    qed
  qed
qed

section \<open>The dynamic-array interpretation\<close>

text \<open>
  Claim C3. In the dynamic-array interpretation of a tail, with \<open>all_results\<close> the
  candidate lists the code has collected: the survivors are the candidates for which
  the reducer returns a non-empty type, in the order of collection; they are sorted by
  their number of elements (a stable sort); if none survives the frame returns none,
  and otherwise the type appended is \<open>T[]\<close> where \<open>T\<close> is the type the reducer computes
  for the first survivor. (The code appends the first element of that survivor, which
  is that type on every list the decoder can build.)
\<close>

theorem array_type_from_reducer:
  assumes "array_candidates (decode_well_formed_tuple n dec) depth dynamic_data maybe_len =
             Inr (Some all_results)"
    and "filter_consistent (generate_consistent_result n) all_results = Inr valid_results"
  shows "valid_results =
           filter (\<lambda>r. \<exists>T. generate_consistent_result n r = Inr (Some T) \<and> T \<noteq> []) all_results \<and>
         (case sort_key length valid_results of
            [] \<Rightarrow>
              decode_array (decode_well_formed_tuple n dec) (generate_consistent_result n) depth
                dynamic_data maybe_len = Inr None
          | first # others \<Rightarrow>
              \<exists>T. generate_consistent_result n first = Inr (Some T) \<and>
                  decode_array (decode_well_formed_tuple n dec) (generate_consistent_result n) depth
                    dynamic_data maybe_len = Inr (Some (T @ ''[]'')))"
proof -
  let ?reduce = "generate_consistent_result n"
  have v: "valid_results = filter (\<lambda>r. \<exists>T. ?reduce r = Inr (Some T) \<and> T \<noteq> []) all_results"
    using assms(2) by (rule filter_consistent_eq)
  have d: "decode_array (decode_well_formed_tuple n dec) ?reduce depth dynamic_data maybe_len =
           pick_array_type ?reduce all_results"
    using assms(1) by (simp add: decode_array_def)
  have pl: "\<forall>r\<in>set all_results. \<forall>t\<in>set r. plain t"
    using array_candidates_plain [OF decode_plain assms(1)] .
  show ?thesis
  proof (cases "sort_key length valid_results")
    case Nil
    then show ?thesis
      using v d assms(2) by (simp add: pick_array_type_def)
  next
    case (Cons first others)
    then have "first \<in> set valid_results"
      by (metis list.set_intros(1) set_sort)
    then obtain T where mem: "first \<in> set all_results" and T: "?reduce first = Inr (Some T)"
      using v by auto
    have ne: "first \<noteq> []"
      using T by (cases n) auto
    then obtain t ts where f: "first = t # ts"
      by (cases first) auto
    have "plain t"
      using pl mem f by auto
    then have "T = hd first"
      using reducer_returns_head [OF T] f plain_not_tuple by (simp add: plain_def)
    then show ?thesis
      using v d assms(2) Cons f T by (simp add: pick_array_type_def)
  qed
qed

lemma upt_0_numeral: "[0..<numeral k] = [0..<pred_numeral k] @ [pred_numeral k]"
  by (subst numeral_eq_Suc) simp

lemma static_parse_cong:
  "idxs = idxs' \<Longrightarrow> static_parse rec dd wpe idxs = static_parse rec dd wpe idxs'"
  by simp

lemmas eval_defs = fuel_numerals frame_defs abi_defs wrap_tuple_def array_candidates_def
  decode_array_def pick_array_type_def consistency_checker_def upt_0_numeral

lemma two_chars_candidates:
  "array_candidates (decode_well_formed_tuple 6 abi_decode) 1 two_chars_calldata (Some 2) =
     Inr (Some [[''bytes'', ''bytes''],
                [''(bytes32,bytes32)'', ''(bytes32,bytes32)''],
                [''((bytes32),bytes32)'', ''(bytes32,bytes32,bytes32)'']])"
  unfolding two_chars_calldata_def
  by (simp add: eval_defs cong: try_branch_cong static_parse_cong)

lemma two_chars_survivors:
  "filter_consistent (generate_consistent_result 6)
     [[''bytes'', ''bytes''],
      [''(bytes32,bytes32)'', ''(bytes32,bytes32)''],
      [''((bytes32),bytes32)'', ''(bytes32,bytes32,bytes32)'']] =
   Inr [[''bytes'', ''bytes''], [''(bytes32,bytes32)'', ''(bytes32,bytes32)'']]"
  by (simp add: eval_defs)

theorem array_type_from_reducer_witness:
  "array_candidates (decode_well_formed_tuple 6 abi_decode) 1 two_chars_calldata (Some 2) =
     Inr (Some [[''bytes'', ''bytes''],
                [''(bytes32,bytes32)'', ''(bytes32,bytes32)''],
                [''((bytes32),bytes32)'', ''(bytes32,bytes32,bytes32)'']]) \<and>
   filter_consistent (generate_consistent_result 6)
     [[''bytes'', ''bytes''],
      [''(bytes32,bytes32)'', ''(bytes32,bytes32)''],
      [''((bytes32),bytes32)'', ''(bytes32,bytes32,bytes32)'']] =
   Inr [[''bytes'', ''bytes''], [''(bytes32,bytes32)'', ''(bytes32,bytes32)'']] \<and>
   generate_consistent_result 6 [''bytes'', ''bytes''] = Inr (Some ''bytes'') \<and>
   decode_array (decode_well_formed_tuple 6 abi_decode) (generate_consistent_result 6) 1
     two_chars_calldata (Some 2) = Inr (Some ''bytes[]'')"
proof -
  have r: "generate_consistent_result 6 [''bytes'', ''bytes''] = Inr (Some ''bytes'')"
    by (simp add: eval_defs)
  show ?thesis
    using array_type_from_reducer [OF two_chars_candidates two_chars_survivors] two_chars_candidates two_chars_survivors r
    by simp
qed

section \<open>The offsets of the dynamic entries\<close>

lemma try_parse_offset_Some:
  "try_parse_offset data pos = Some off \<Longrightarrow> pos < off \<and> off < length data \<and> off mod 32 = 0"
  by (auto simp: try_parse_offset_def Let_def split: if_splits)

lemma slots_ok_iff:
  "slots_ok data (idx, coll, eos, dyn) \<longleftrightarrow>
     length coll = idx \<and> eos \<le> length data \<and>
     (\<forall>i < length coll. \<forall>off len. coll ! i = Dynamic off len \<longrightarrow>
        32 * i < off \<and> off < length data \<and> off mod 32 = 0 \<and> eos \<le> off)"
  by (auto simp: slots_ok_def split: slot.splits)

lemma slots_ok_append:
  assumes ok: "slots_ok data (idx, coll, eos, dyn)" and le: "eos' \<le> eos"
    and new: "\<And>off len. slot = Dynamic off len \<Longrightarrow>
                32 * idx < off \<and> off < length data \<and> off mod 32 = 0 \<and> eos' \<le> off"
  shows "slots_ok data (idx + 1, coll @ [slot], eos', dyn')"
proof -
  have len: "length coll = idx" and eos: "eos \<le> length data"
    and old: "\<And>i off len. i < length coll \<Longrightarrow> coll ! i = Dynamic off len \<Longrightarrow>
                32 * i < off \<and> off < length data \<and> off mod 32 = 0 \<and> eos \<le> off"
    using ok unfolding slots_ok_iff by blast+
  have "32 * i < off \<and> off < length data \<and> off mod 32 = 0 \<and> eos' \<le> off"
    if i: "i < length (coll @ [slot])" and d: "(coll @ [slot]) ! i = Dynamic off len" for i off len
  proof (cases "i < length coll")
    case True
    then have "coll ! i = Dynamic off len"
      using d by (simp add: nth_append)
    then show ?thesis
      using old [OF True] le by fastforce
  next
    case False
    then have "i = idx" "slot = Dynamic off len"
      using i d len by (auto simp: nth_append)
    then show ?thesis
      using new by blast
  qed
  then show ?thesis
    unfolding slots_ok_iff using len eos le by auto
qed

lemma frame_call_slots_ok:
  assumes "slots_ok data f" and "frame_call data f f'"
  shows "slots_ok data f'"
  using assms(2)
proof (cases rule: frame_call.cases)
  case (call_with_length param_idx end_of_static off len is_dyn collected)
  have o: "param_idx * 32 < off \<and> off < length data \<and> off mod 32 = 0"
    using call_with_length(4) by (rule try_parse_offset_Some)
  show ?thesis
    unfolding call_with_length(2)
    using assms(1) o unfolding call_with_length(1)
    by (intro slots_ok_append) (auto simp: mult.commute)
next
  case (call_without_length param_idx end_of_static off is_dyn collected)
  have o: "param_idx * 32 < off \<and> off < length data \<and> off mod 32 = 0"
    using call_without_length(4) by (rule try_parse_offset_Some)
  show ?thesis
    unfolding call_without_length(2)
    using assms(1) o unfolding call_without_length(1)
    by (intro slots_ok_append) (auto simp: mult.commute)
next
  case (call_static param_idx end_of_static is_dyn collected)
  show ?thesis
    unfolding call_static(2)
    using assms(1) unfolding call_static(1)
    by (intro slots_ok_append) auto
qed

lemma reachable_slots_ok:
  "rtranclp (frame_call data) f f' \<Longrightarrow> slots_ok data f \<Longrightarrow> slots_ok data f'"
  by (induction rule: rtranclp_induct) (auto intro: frame_call_slots_ok)

text \<open>
  The call graph is the one of the code: the result of the static region depends on the
  recursive calls only through the frames that \<open>frame_call\<close> gives.
\<close>

lemma static_region_calls_frames:
  assumes "\<And>d idx' coll' eos'.
             frame_call data (idx, coll, eos, dyn) (idx', coll', eos', dyn) \<Longrightarrow>
             rec d data idx' coll' eos' exp dyn = rec' d data idx' coll' eos' exp dyn"
    and "idx * 32 < eos"
  shows "decode_static_region rec dec depth data idx coll eos exp dyn =
         decode_static_region rec' dec depth data idx coll eos exp dyn"
proof -
  have st: "assume_static rec dec depth data idx coll eos exp dyn =
            assume_static rec' dec depth data idx coll eos exp dyn"
    unfolding assume_static_def
    using assms(1) [OF call_static [OF assms(2)]] by auto
  have nl: "assume_no_length rec dec depth data idx coll eos exp dyn off =
            assume_no_length rec' dec depth data idx coll eos exp dyn off"
    if "try_parse_offset data (idx * 32) = Some off" for off
    unfolding assume_no_length_def
    using st assms(1) [OF call_without_length [OF assms(2) that]] by auto
  show ?thesis
    unfolding decode_static_region_def
    using st nl assms(1) [OF call_with_length [OF assms(2)]]
    by (auto split: option.splits)
qed

text \<open>
  Claim C9, as amended. In every frame that \<^verbatim>\<open>decode_well_formed_tuple\<close> reaches in the
  static region from a call with no collected entry and \<^verbatim>\<open>end_of_static_calldata\<close> equal
  to the length of the data (so in every frame that returns a list), there is one entry
  for each word read, \<^verbatim>\<open>end_of_static_calldata\<close> is at most the length of the data, and
  each dynamic entry holds an offset that is a multiple of 32, lies strictly between the
  byte position of its word and the length of the data, and is at least
  \<^verbatim>\<open>end_of_static_calldata\<close>. Nothing orders the offsets.
\<close>

theorem reachable_frame_offsets:
  assumes "rtranclp (frame_call data) (0, [], length data, is_dyn)
             (param_idx, collected, end_of_static, is_dyn')"
  shows "length collected = param_idx \<and> end_of_static \<le> length data \<and>
         (\<forall>i < length collected. \<forall>off len. collected ! i = Dynamic off len \<longrightarrow>
            32 * i < off \<and> off < length data \<and> off mod 32 = 0 \<and> end_of_static \<le> off)"
proof -
  have "slots_ok data (0, [], length data, is_dyn)"
    by (simp add: slots_ok_iff)
  then have "slots_ok data (param_idx, collected, end_of_static, is_dyn')"
    using reachable_slots_ok [OF assms] by simp
  then show ?thesis
    unfolding slots_ok_iff by blast
qed

lemma reversed_tails_first_call:
  "frame_call reversed_tails_calldata (0, [], 128, None) (1, [Dynamic 96 (Some 0)], 96, None)"
proof -
  have o: "try_parse_offset reversed_tails_calldata (0 * 32) = Some 96"
    unfolding reversed_tails_calldata_def by (simp add: frame_defs)
  have l: "try_parse_length reversed_tails_calldata 96 = Some 0"
    unfolding reversed_tails_calldata_def by (simp add: frame_defs)
  show ?thesis
    using call_with_length [of 0 128 reversed_tails_calldata 96 0 None "[]", OF _ o l] by simp
qed

lemma reversed_tails_second_call:
  "frame_call reversed_tails_calldata (1, [Dynamic 96 (Some 0)], 96, None)
     (2, [Dynamic 96 (Some 0), Dynamic 64 (Some 0)], 64, None)"
proof -
  have o: "try_parse_offset reversed_tails_calldata (1 * 32) = Some 64"
    unfolding reversed_tails_calldata_def by (simp add: frame_defs)
  have l: "try_parse_length reversed_tails_calldata 64 = Some 0"
    unfolding reversed_tails_calldata_def by (simp add: frame_defs)
  show ?thesis
    using call_with_length [of 1 96 reversed_tails_calldata 64 0 None "[Dynamic 96 (Some 0)]", OF _ o l]
    by (simp add: numeral_2_eq_2)
qed

theorem reachable_frame_offsets_witness:
  "rtranclp (frame_call reversed_tails_calldata) (0, [], length reversed_tails_calldata, None)
     (1, [Dynamic 96 (Some 0)], 96, None) \<and>
   length [Dynamic 96 (Some 0)] = 1 \<and> (96::nat) \<le> length reversed_tails_calldata \<and>
   32 * 0 < (96::nat) \<and> (96::nat) mod 32 = 0"
proof -
  have len: "length reversed_tails_calldata = 128"
    by (simp add: reversed_tails_calldata_def)
  have r: "rtranclp (frame_call reversed_tails_calldata) (0, [], length reversed_tails_calldata, None)
             (1, [Dynamic 96 (Some 0)], 96, None)"
    unfolding len using reversed_tails_first_call by blast
  show ?thesis
    using reachable_frame_offsets [OF r] r len by simp
qed

text \<open>
  The claim as stated fails on two empty dynamic values whose tails are in reverse
  order: the frame that holds both entries is reached, returns a list that the ABI
  decoder accepts, and its offsets are 96 and 64, which are not increasing; the first
  is above the final \<^verbatim>\<open>end_of_static_calldata\<close>, 64.
\<close>

theorem offsets_not_increasing:
  "rtranclp (frame_call reversed_tails_calldata) (0, [], length reversed_tails_calldata, None)
     (2, [Dynamic 96 (Some 0), Dynamic 64 (Some 0)], 64, None) \<and>
   decode_well_formed_tuple 1 abi_decode 2 reversed_tails_calldata 2
     [Dynamic 96 (Some 0), Dynamic 64 (Some 0)] 64 None None = Inr (Some [''()[]'', ''()[]'']) \<and>
   dynamic_offsets [Dynamic 96 (Some 0), Dynamic 64 (Some 0)] = [96, 64] \<and>
   \<not> sorted_wrt (<) [96, 64 :: nat] \<and> \<not> (96::nat) \<le> 64"
proof -
  have len: "length reversed_tails_calldata = 128"
    by (simp add: reversed_tails_calldata_def)
  have r: "rtranclp (frame_call reversed_tails_calldata) (0, [], length reversed_tails_calldata, None)
             (2, [Dynamic 96 (Some 0), Dynamic 64 (Some 0)], 64, None)"
    unfolding len using reversed_tails_first_call reversed_tails_second_call by (meson rtranclp.rtrancl_into_rtrancl rtranclp.rtrancl_refl)
  have d: "decode_well_formed_tuple 1 abi_decode 2 reversed_tails_calldata 2
             [Dynamic 96 (Some 0), Dynamic 64 (Some 0)] 64 None None = Inr (Some [''()[]'', ''()[]''])"
    unfolding reversed_tails_calldata_def
    by (simp add: eval_defs cong: try_branch_cong)
  show ?thesis
    using r d by (simp add: dynamic_offsets_def)
qed

section \<open>A failing window of the static-array path\<close>

lemma resolve_params_stops:
  assumes "\<forall>j\<in>set pre. \<exists>t. f j = Inr (Some t)" and "f i = Inr None"
  shows "resolve_params f (pre @ i # post) acc = Inr None"
  using assms(1)
proof (induction pre arbitrary: acc)
  case Nil
  show ?case using assms(2) by simp
next
  case (Cons j pre)
  then obtain t where "f j = Inr (Some t)"
    by auto
  then show ?case
    using Cons by simp
qed

text \<open>
  A window of the static-array path that yields nothing ends the frame: when a dynamic
  entry with a non-zero length is not a byte string, the two recursions on its tail
  return (whatever they return) and the static-array path gets nothing from one of its
  element windows, the frame returns none at once, whatever the candidate lists of the
  two recursions are.
\<close>

lemma window_none_fails_frame:
  assumes "\<not> param_idx * 32 < end_of_static"
    and "expected_length = None \<or> expected_length = Some (length collected)"
    and "i < length collected" and "collected ! i = Dynamic off (Some len)"
    and "\<forall>j<i. \<exists>t. resolve_slot (decode_well_formed_tuple n dec) (generate_consistent_result n)
                        depth data collected j = Inr (Some t)"
    and "len \<noteq> 0"
    and "dd = dynamic_data_of data collected i off (Some len)"
    and "looks_like_bytes dd (Some len) = Inr False"
    and "decode_well_formed_tuple n dec (depth + 1) dd 0 [] (length dd) (Some len) (Some True) =
           Inr decoded_assuming_length"
    and "decode_well_formed_tuple n dec (depth + 1) dd 0 [] (length dd) (Some len) (Some False) =
           Inr decoded_assuming_no_length"
    and "static_parse
           (\<lambda>window. decode_well_formed_tuple n dec (depth + 1) window 0 []
                        (length dd div 32 div len * 32) None None)
           dd (length dd div 32 div len) [0..<len] = Inr None"
  shows "decode_well_formed_tuple (Suc n) dec depth data param_idx collected end_of_static
           expected_length is_dyn = Inr None"
proof -
  let ?rec = "decode_well_formed_tuple n dec"
  let ?reduce = "generate_consistent_result n"
  let ?f = "resolve_slot ?rec ?reduce depth data collected"
  have "array_candidates ?rec depth dd (Some len) = Inr None"
    unfolding array_candidates_def Let_def
    using assms(6,9,10,11) by simp
  then have "decode_array ?rec ?reduce depth dd (Some len) = Inr None"
    by (simp add: decode_array_def)
  then have "resolve_with_length ?rec ?reduce depth dd (Some len) = Inr None"
    using assms(6,8) by (simp add: resolve_with_length_def)
  then have fi: "?f i = Inr None"
    using assms(4,7) by (simp add: resolve_slot_def resolve_dynamic_def)
  have split: "[0..<length collected] = [0..<i] @ i # [Suc i..<length collected]"
    using assms(3) by (metis le_add1 less_imp_add_positive upt_add_eq_append upt_conv_Cons plus_nat.add_0)
  have "resolve_params ?f [0..<length collected] [] = Inr None"
    unfolding split using assms(5) fi by (intro resolve_params_stops) auto
  then show ?thesis
    using assms(1,2) by (auto simp: resolve_dynamic_region_def)
qed

lemma drop_low_word: "k < 31 \<Longrightarrow> filter (\<lambda>v. v \<noteq> 0) (drop k (low_word b)) = (if b = 0 then [] else [b])"
  by (simp add: low_word_def)

text \<open>
  So it is for an array that declares five elements and holds one word: each of the
  five windows is empty.
\<close>

lemma window_none_fails_frame_example:
  "dynamic_data_of short_array_calldata [Dynamic 32 (Some 5)] 0 32 (Some 5) = low_word 1 \<and>
   looks_like_bytes (low_word 1) (Some 5) = Inr False \<and>
   decode_well_formed_tuple 2 abi_decode 1 (low_word 1) 0 [] 32 (Some 5) (Some True) = Inr None \<and>
   decode_well_formed_tuple 2 abi_decode 1 (low_word 1) 0 [] 32 (Some 5) (Some False) = Inr None \<and>
   static_parse (\<lambda>window. decode_well_formed_tuple 2 abi_decode 1 window 0 [] 0 None None)
     (low_word 1) 0 [0..<5] = Inr None \<and>
   decode_well_formed_tuple (Suc 2) abi_decode 0 short_array_calldata 1 [Dynamic 32 (Some 5)] 32
     None None = Inr None"
proof -
  have dd: "dynamic_data_of short_array_calldata [Dynamic 32 (Some 5)] 0 32 (Some 5) = low_word 1"
    unfolding short_array_calldata_def by (simp add: dynamic_data_of_def slice_def)
  have nb: "looks_like_bytes (low_word 1) (Some 5) = Inr False"
    by (simp add: looks_like_bytes_def drop_low_word)
  have a: "decode_well_formed_tuple 2 abi_decode (0 + 1) (low_word 1) 0 [] (length (low_word 1))
             (Some 5) (Some True) = Inr None"
    by (simp add: eval_defs cong: try_branch_cong)
  have b: "decode_well_formed_tuple 2 abi_decode (0 + 1) (low_word 1) 0 [] (length (low_word 1))
             (Some 5) (Some False) = Inr None"
    by (simp add: eval_defs cong: try_branch_cong)
  have w: "static_parse
             (\<lambda>window. decode_well_formed_tuple 2 abi_decode (0 + 1) window 0 []
                          (length (low_word 1) div 32 div 5 * 32) None None)
             (low_word 1) (length (low_word 1) div 32 div 5) [0..<5] = Inr None"
    by (simp add: eval_defs cong: try_branch_cong static_parse_cong)
  have "decode_well_formed_tuple (Suc 2) abi_decode 0 short_array_calldata 1 [Dynamic 32 (Some 5)] 32
          None None = Inr None"
    by (rule window_none_fails_frame [where i = 0 and off = 32 and len = 5 and dd = "low_word 1",
          OF _ _ _ _ _ _ dd [symmetric] nb a b w]) simp_all
  moreover have "decode_well_formed_tuple 2 abi_decode 1 (low_word 1) 0 [] 32 (Some 5) (Some True) = Inr None"
    using a by simp
  moreover have "decode_well_formed_tuple 2 abi_decode 1 (low_word 1) 0 [] 32 (Some 5) (Some False) = Inr None"
    using b by simp
  moreover have "static_parse (\<lambda>window. decode_well_formed_tuple 2 abi_decode 1 window 0 [] 0 None None)
     (low_word 1) 0 [0..<5] = Inr None"
    using w by simp
  ultimately show ?thesis
    using dd nb by simp
qed








end
